theory Spec2Isabelle
  imports Complex_Main "HOL-Library.Multiset"
begin

section \<open>Numbers, coordinates and errors\<close>

text \<open>
  A grid coordinate is a Python tuple \<open>(x, y)\<close> of two integers. Python numbers
  (the integers and floats of the cost functions) are modelled as reals, extended by
  \<open>math.inf\<close>; the sums and comparisons below are the ones Python performs on them.

  A float is taken as the real number it denotes. Where \<open>AStar.cost\<close> converts an integer
  multiplier to a float, the conversion is rounded as the machine rounds it
  (\<open>float_of_int\<close> below). Square roots, products and sums are taken in exact arithmetic:
  this is what the machine computes as long as the operands and the result are integers of
  magnitude at most \<open>2^53\<close>, and it leaves out the rounding of the multiples of
  \<open>sqrt 2\<close> and of larger sums, and the \<open>OverflowError\<close> beyond the range of a
  double.
\<close>

type_synonym coord = "int \<times> int"

datatype number = Fin real | PosInf

datatype error = KeyError | IndexError

fun num_add :: "number \<Rightarrow> number \<Rightarrow> number" where
  "num_add (Fin a) (Fin b) = Fin (a + b)"
| "num_add _ _ = PosInf"

fun num_less :: "number \<Rightarrow> number \<Rightarrow> bool" where
  "num_less (Fin a) (Fin b) = (a < b)"
| "num_less (Fin a) PosInf = True"
| "num_less PosInf _ = False"

text \<open>Tuples compare lexicographically: the first differing component decides.\<close>

definition coord_less :: "coord \<Rightarrow> coord \<Rightarrow> bool" where
  "coord_less a b = (if fst a \<noteq> fst b then fst a < fst b else snd a < snd b)"

type_synonym entry = "number \<times> coord"

definition entry_less :: "entry \<Rightarrow> entry \<Rightarrow> bool" where
  "entry_less a b = (if fst a \<noteq> fst b then num_less (fst a) (fst b) else coord_less (snd a) (snd b))"

section \<open>The binary heap of \<open>heapq\<close>\<close>

text \<open>
  \<open>heapq\<close> keeps the heap in a Python list. The layout matters: the breadth-first
  variant reads the last array cell \<open>OPEN[-1]\<close>.
\<close>

function siftdown_loop :: "entry list \<Rightarrow> nat \<Rightarrow> entry \<Rightarrow> nat \<Rightarrow> entry list" where
  "siftdown_loop heap startpos newitem pos =
     (if pos > startpos then
        (if entry_less newitem (heap ! ((pos - 1) div 2))
         then siftdown_loop (heap[pos := heap ! ((pos - 1) div 2)]) startpos newitem ((pos - 1) div 2)
         else heap[pos := newitem])
      else heap[pos := newitem])"
  by pat_completeness auto
termination
  by (relation "measure (\<lambda>(heap, startpos, newitem, pos). pos)") auto

declare siftdown_loop.simps [simp del]

definition siftdown :: "entry list \<Rightarrow> nat \<Rightarrow> nat \<Rightarrow> entry list" where
  "siftdown heap startpos pos = siftdown_loop heap startpos (heap ! pos) pos"

definition smaller_child :: "entry list \<Rightarrow> nat \<Rightarrow> nat \<Rightarrow> nat" where
  "smaller_child heap endpos childpos =
     (if childpos + 1 < endpos \<and> \<not> entry_less (heap ! childpos) (heap ! (childpos + 1))
      then childpos + 1 else childpos)"

function siftup_loop :: "entry list \<Rightarrow> nat \<Rightarrow> nat \<Rightarrow> nat \<Rightarrow> entry list \<times> nat" where
  "siftup_loop heap endpos pos childpos =
     (if childpos < endpos then
        siftup_loop (heap[pos := heap ! smaller_child heap endpos childpos]) endpos
          (smaller_child heap endpos childpos) (2 * smaller_child heap endpos childpos + 1)
      else (heap, pos))"
  by pat_completeness auto
termination
  by (relation "measure (\<lambda>(heap, endpos, pos, childpos). endpos - childpos)")
     (auto simp: smaller_child_def)

declare siftup_loop.simps [simp del]

definition siftup :: "entry list \<Rightarrow> nat \<Rightarrow> entry list" where
  "siftup heap pos =
     siftdown ((fst (siftup_loop heap (length heap) pos (2 * pos + 1)))
                 [snd (siftup_loop heap (length heap) pos (2 * pos + 1)) := heap ! pos])
       pos (snd (siftup_loop heap (length heap) pos (2 * pos + 1)))"

definition heappush :: "entry list \<Rightarrow> entry \<Rightarrow> entry list" where
  "heappush heap item = siftdown (heap @ [item]) 0 (length heap)"

definition heappop :: "entry list \<Rightarrow> error + entry \<times> entry list" where
  "heappop heap =
     (if heap = [] then Inl IndexError
      else if butlast heap \<noteq> []
        then Inr (hd heap, siftup ((butlast heap)[0 := last heap]) 0)
        else Inr (last heap, []))"

section \<open>The planner object\<close>

record planner =
  s_start :: coord
  s_goal :: coord
  heuristic_type :: string
  heuristic_weight :: real
  u_set :: "(int \<times> int) list"
  obs :: "coord set"
  OPEN :: "entry list"
  CLOSED :: "coord list"
  PARENT :: "coord \<rightharpoonup> coord"
  g :: "coord \<rightharpoonup> number"
  terrain_cost :: "coord \<rightharpoonup> int"
  terrain_colors :: "coord \<rightharpoonup> string"

definition get_terrain_cost :: "planner \<Rightarrow> coord \<Rightarrow> int" where
  "get_terrain_cost self node = (case terrain_cost self node of Some c \<Rightarrow> c | None \<Rightarrow> 1)"

definition get_neighbor :: "planner \<Rightarrow> coord \<Rightarrow> coord list" where
  "get_neighbor self s = map (\<lambda>u. (fst s + fst u, snd s + snd u)) (u_set self)"

definition is_collision :: "planner \<Rightarrow> coord \<Rightarrow> coord \<Rightarrow> bool" where
  "is_collision self a b =
     (if a \<in> obs self \<or> b \<in> obs self then True
      else if fst a \<noteq> fst b \<and> snd a \<noteq> snd b then
        (if fst b - fst a = snd a - snd b
         then (min (fst a) (fst b), min (snd a) (snd b)) \<in> obs self
            \<or> (max (fst a) (fst b), max (snd a) (snd b)) \<in> obs self
         else (min (fst a) (fst b), max (snd a) (snd b)) \<in> obs self
            \<or> (max (fst a) (fst b), min (snd a) (snd b)) \<in> obs self)
      else False)"

definition hypot :: "int \<Rightarrow> int \<Rightarrow> real" where
  "hypot dx dy = sqrt (real_of_int (dx * dx + dy * dy))"

text \<open>
  \<open>base_distance * terrain_factor\<close> multiplies a float by a Python integer, which is
  converted to a double first: to the nearest one, a tie going to the even significand of
  53 bits. \<open>bit_length\<close> is \<open>int.bit_length\<close>.
\<close>

fun bit_length :: "nat \<Rightarrow> nat" where
  "bit_length n = (if n = 0 then 0 else Suc (bit_length (n div 2)))"

declare bit_length.simps [simp del]

definition round_half_even :: "nat \<Rightarrow> nat \<Rightarrow> nat" where
  "round_half_even e n =
     (if 2 ^ e < 2 * (n mod 2 ^ e) \<or> (2 * (n mod 2 ^ e) = 2 ^ e \<and> odd (n div 2 ^ e))
      then n div 2 ^ e + 1 else n div 2 ^ e) * 2 ^ e"

definition float_of_nat :: "nat \<Rightarrow> real" where
  "float_of_nat n = real (round_half_even (bit_length n - 53) n)"

definition float_of_int :: "int \<Rightarrow> real" where
  "float_of_int k = (if k < 0 then - float_of_nat (nat (- k)) else float_of_nat (nat k))"

definition AStar_cost :: "planner \<Rightarrow> coord \<Rightarrow> coord \<Rightarrow> number" where
  "AStar_cost self a b =
     (if is_collision self a b then PosInf
      else Fin (hypot (fst b - fst a) (snd b - snd a) * float_of_int (get_terrain_cost self b)))"

definition Dijkstra_cost :: "planner \<Rightarrow> coord \<Rightarrow> coord \<Rightarrow> number" where
  "Dijkstra_cost self a b =
     (if is_collision self a b then PosInf else Fin (real_of_int (get_terrain_cost self b)))"

definition BFS_cost :: "planner \<Rightarrow> coord \<Rightarrow> coord \<Rightarrow> number" where
  "BFS_cost self a b = (if is_collision self a b then PosInf else Fin 1)"

definition heuristic :: "planner \<Rightarrow> coord \<Rightarrow> real" where
  "heuristic self s =
     (if heuristic_type self = ''manhattan''
      then real_of_int (\<bar>fst (s_goal self) - fst s\<bar> + \<bar>snd (s_goal self) - snd s\<bar>)
      else hypot (fst (s_goal self) - fst s) (snd (s_goal self) - snd s))"

definition f_value :: "planner \<Rightarrow> coord \<Rightarrow> error + number" where
  "f_value self s =
     (case g self s of
        None \<Rightarrow> Inl KeyError
      | Some gs \<Rightarrow> Inr (num_add gs (Fin (heuristic_weight self * heuristic self s))))"

section \<open>The search loop\<close>

text \<open>
  The three priority-driven classes run the same loop; they differ in the method
  \<open>cost\<close> that \<open>self.cost\<close> dispatches to and in the priority pushed with a
  relaxed neighbour. Both are parameters of the model: \<open>prior self s_n new_cost\<close> is
  evaluated in the state after \<open>g\<close> and \<open>PARENT\<close> have been updated.
\<close>

definition relax ::
  "(planner \<Rightarrow> coord \<Rightarrow> coord \<Rightarrow> number) \<Rightarrow> (planner \<Rightarrow> coord \<Rightarrow> number \<Rightarrow> error + number)
   \<Rightarrow> planner \<Rightarrow> coord \<Rightarrow> coord \<Rightarrow> error + planner" where
  "relax cost prior self s s_n =
     (case g self s of
        None \<Rightarrow> Inl KeyError
      | Some gs \<Rightarrow>
          (let new_cost = num_add gs (cost self s s_n);
               g1 = (if g self s_n = None then (g self)(s_n \<mapsto> PosInf) else g self)
           in if num_less new_cost (case g1 s_n of Some gn \<Rightarrow> gn | None \<Rightarrow> PosInf)
              then (let self2 = self\<lparr>PARENT := (PARENT self)(s_n \<mapsto> s), g := g1(s_n \<mapsto> new_cost)\<rparr>
                    in case prior self2 s_n new_cost of
                         Inl e \<Rightarrow> Inl e
                       | Inr p \<Rightarrow> Inr (self2\<lparr>OPEN := heappush (OPEN self2) (p, s_n)\<rparr>))
              else Inr (self\<lparr>g := g1\<rparr>)))"

fun relax_all ::
  "(planner \<Rightarrow> coord \<Rightarrow> coord \<Rightarrow> number) \<Rightarrow> (planner \<Rightarrow> coord \<Rightarrow> number \<Rightarrow> error + number)
   \<Rightarrow> planner \<Rightarrow> coord \<Rightarrow> coord list \<Rightarrow> error + planner" where
  "relax_all cost prior self s [] = Inr self"
| "relax_all cost prior self s (s_n # rest) =
     (case relax cost prior self s s_n of
        Inl e \<Rightarrow> Inl e
      | Inr self' \<Rightarrow> relax_all cost prior self' s rest)"

text \<open>
  \<open>while self.OPEN\<close> can run forever (an unbounded free region), so the loop is a
  partial function: \<open>None\<close> is a run that does not return, \<open>Some (Inl e)\<close> one that
  raises \<open>e\<close>, \<open>Some (Inr self')\<close> one that leaves the loop in state \<open>self'\<close>.
\<close>

partial_function (option) search_loop ::
  "(planner \<Rightarrow> coord \<Rightarrow> coord \<Rightarrow> number) \<Rightarrow> (planner \<Rightarrow> coord \<Rightarrow> number \<Rightarrow> error + number)
   \<Rightarrow> planner \<Rightarrow> (error + planner) option" where
  "search_loop cost prior self =
     (if OPEN self = [] then Some (Inr self)
      else (case heappop (OPEN self) of
              Inl e \<Rightarrow> Some (Inl e)
            | Inr popped \<Rightarrow>
                (if snd (fst popped) = s_goal self
                 then Some (Inr (self\<lparr>OPEN := snd popped,
                                       CLOSED := CLOSED self @ [snd (fst popped)]\<rparr>))
                 else (case relax_all cost prior
                              (self\<lparr>OPEN := snd popped, CLOSED := CLOSED self @ [snd (fst popped)]\<rparr>)
                              (snd (fst popped)) (get_neighbor self (snd (fst popped))) of
                         Inl e \<Rightarrow> Some (Inl e)
                       | Inr self' \<Rightarrow> search_loop cost prior self'))))"

declare search_loop.simps [code]

partial_function (option) extract_loop ::
  "planner \<Rightarrow> (coord \<rightharpoonup> coord) \<Rightarrow> coord \<Rightarrow> coord list \<Rightarrow> (error + coord list) option" where
  "extract_loop self parent s path =
     (case parent s of
        None \<Rightarrow> Some (Inl KeyError)
      | Some p \<Rightarrow>
          (if p = s_start self then Some (Inr (path @ [p]))
           else extract_loop self parent p (path @ [p])))"

declare extract_loop.simps [code]

definition extract_path :: "planner \<Rightarrow> (coord \<rightharpoonup> coord) \<Rightarrow> (error + coord list) option" where
  "extract_path self parent = extract_loop self parent (s_goal self) [s_goal self]"

text \<open>
  \<open>return self.extract_path(self.PARENT), self.CLOSED\<close>: the value returned after the
  loop has left the object in state \<open>self'\<close>.
\<close>

definition finish :: "(error + planner) option \<Rightarrow> (error + coord list \<times> coord list) option" where
  "finish r =
     (case r of
        None \<Rightarrow> None
      | Some (Inl e) \<Rightarrow> Some (Inl e)
      | Some (Inr self') \<Rightarrow>
          (case extract_path self' (PARENT self') of
             None \<Rightarrow> None
           | Some (Inl e) \<Rightarrow> Some (Inl e)
           | Some (Inr path) \<Rightarrow> Some (Inr (path, CLOSED self'))))"

text \<open>The first three statements of every \<open>searching\<close>.\<close>

definition init_search :: "planner \<Rightarrow> planner" where
  "init_search self =
     self\<lparr>PARENT := (PARENT self)(s_start self \<mapsto> s_start self),
          g := ((g self)(s_start self \<mapsto> Fin 0))(s_goal self \<mapsto> PosInf)\<rparr>"

subsection \<open>\<open>AStar.searching\<close>\<close>

definition AStar_prior :: "planner \<Rightarrow> coord \<Rightarrow> number \<Rightarrow> error + number" where
  "AStar_prior self s_n new_cost = f_value self s_n"

definition AStar_run :: "planner \<Rightarrow> (error + planner) option" where
  "AStar_run self =
     (case f_value (init_search self) (s_start self) of
        Inl e \<Rightarrow> Some (Inl e)
      | Inr f \<Rightarrow>
          search_loop AStar_cost AStar_prior
            ((init_search self)\<lparr>OPEN := heappush (OPEN self) (f, s_start self)\<rparr>))"

definition AStar_searching :: "planner \<Rightarrow> (error + coord list \<times> coord list) option" where
  "AStar_searching self = finish (AStar_run self)"

subsection \<open>\<open>Dijkstra.searching\<close>\<close>

definition Dijkstra_prior :: "planner \<Rightarrow> coord \<Rightarrow> number \<Rightarrow> error + number" where
  "Dijkstra_prior self s_n new_cost = Inr new_cost"

definition Dijkstra_run :: "planner \<Rightarrow> (error + planner) option" where
  "Dijkstra_run self =
     search_loop Dijkstra_cost Dijkstra_prior
       ((init_search self)\<lparr>OPEN := heappush (OPEN self) (Fin 0, s_start self)\<rparr>)"

definition Dijkstra_searching :: "planner \<Rightarrow> (error + coord list \<times> coord list) option" where
  "Dijkstra_searching self = finish (Dijkstra_run self)"

subsection \<open>\<open>BFS.searching\<close>\<close>

text \<open>\<open>prior = self.OPEN[-1][0]+1 if len(self.OPEN)>0 else 0\<close>\<close>

definition BFS_prior :: "planner \<Rightarrow> coord \<Rightarrow> number \<Rightarrow> error + number" where
  "BFS_prior self s_n new_cost =
     Inr (if length (OPEN self) > 0 then num_add (fst (last (OPEN self))) (Fin 1) else Fin 0)"

definition BFS_run :: "planner \<Rightarrow> (error + planner) option" where
  "BFS_run self =
     search_loop BFS_cost BFS_prior
       ((init_search self)\<lparr>OPEN := heappush (OPEN self) (Fin 0, s_start self)\<rparr>)"

definition BFS_searching :: "planner \<Rightarrow> (error + coord list \<times> coord list) option" where
  "BFS_searching self = finish (BFS_run self)"

subsection \<open>\<open>DFS.searching\<close>\<close>

text \<open>
  The depth-first class keeps two locals beside the object: the stack (a Python list,
  top at the end) and the set of visited coordinates. The debug printing has no effect
  on the state and is left out.
\<close>

record dfs_state =
  dfs_self :: planner
  stack :: "coord list"
  visited :: "coord set"

definition DFS_visit :: "dfs_state \<Rightarrow> coord \<Rightarrow> coord \<Rightarrow> error + dfs_state" where
  "DFS_visit st s s_n =
     (if s_n \<notin> visited st \<and> \<not> is_collision (dfs_self st) s s_n then
        (case g (dfs_self st) s of
           None \<Rightarrow> Inl KeyError
         | Some gs \<Rightarrow>
             Inr (st\<lparr>dfs_self := (dfs_self st)\<lparr>PARENT := (PARENT (dfs_self st))(s_n \<mapsto> s),
                                              g := (g (dfs_self st))(s_n \<mapsto> num_add gs (Fin 1))\<rparr>,
                     stack := stack st @ [s_n],
                     visited := insert s_n (visited st)\<rparr>))
      else Inr st)"

fun DFS_visit_all :: "dfs_state \<Rightarrow> coord \<Rightarrow> coord list \<Rightarrow> error + dfs_state" where
  "DFS_visit_all st s [] = Inr st"
| "DFS_visit_all st s (s_n # rest) =
     (case DFS_visit st s s_n of
        Inl e \<Rightarrow> Inl e
      | Inr st' \<Rightarrow> DFS_visit_all st' s rest)"

partial_function (option) DFS_loop :: "dfs_state \<Rightarrow> (error + dfs_state) option" where
  "DFS_loop st =
     (if stack st = [] then Some (Inr st)
      else if last (stack st) = s_goal (dfs_self st)
        then Some (Inr (st\<lparr>dfs_self := (dfs_self st)\<lparr>CLOSED := CLOSED (dfs_self st) @ [last (stack st)]\<rparr>,
                             stack := butlast (stack st)\<rparr>))
        else (case DFS_visit_all
                     (st\<lparr>dfs_self := (dfs_self st)\<lparr>CLOSED := CLOSED (dfs_self st) @ [last (stack st)]\<rparr>,
                         stack := butlast (stack st)\<rparr>)
                     (last (stack st)) (get_neighbor (dfs_self st) (last (stack st))) of
                Inl e \<Rightarrow> Some (Inl e)
              | Inr st' \<Rightarrow> DFS_loop st'))"

declare DFS_loop.simps [code]

definition DFS_start :: "planner \<Rightarrow> dfs_state" where
  "DFS_start self =
     \<lparr>dfs_self = self\<lparr>PARENT := (PARENT self)(s_start self \<mapsto> s_start self),
                        g := (g self)(s_start self \<mapsto> Fin 0)\<rparr>,
      stack = [s_start self],
      visited = {s_start self}\<rparr>"

definition DFS_run :: "planner \<Rightarrow> (error + planner) option" where
  "DFS_run self =
     (case DFS_loop (DFS_start self) of
        None \<Rightarrow> None
      | Some (Inl e) \<Rightarrow> Some (Inl e)
      | Some (Inr st) \<Rightarrow> Some (Inr (dfs_self st)))"

definition DFS_searching :: "planner \<Rightarrow> (error + coord list \<times> coord list) option" where
  "DFS_searching self = finish (DFS_run self)"

section \<open>Construction and the terrain overlay\<close>

text \<open>
  The constructor calls \<open>random.seed(42)\<close> and then draws with \<open>random.choice\<close>
  from the process-wide generator. The generator is a parameter of the model: a type
  \<open>'r\<close> of generator states, \<open>seed\<close> for \<open>random.seed\<close>, and \<open>below r n\<close> for the
  index that \<open>random.choice\<close> draws for a sequence of length \<open>n\<close> in state \<open>r\<close>,
  with the state after the draw. The library draws an index below \<open>n\<close>; the model
  reduces modulo \<open>n\<close>, which changes nothing for such a generator.
\<close>

definition choice :: "('r \<Rightarrow> nat \<Rightarrow> nat \<times> 'r) \<Rightarrow> 'r \<Rightarrow> 'a list \<Rightarrow> 'a \<times> 'r" where
  "choice below r seq =
     (seq ! (fst (below r (length seq)) mod length seq), snd (below r (length seq)))"

text \<open>\<open>color_map = {2: 'red', 3: 'yellow', 4: 'blue', 5: 'green'}\<close>, read at a drawn cost.\<close>

definition color_map :: "int \<Rightarrow> string" where
  "color_map c =
     (if c = 2 then ''red'' else if c = 3 then ''yellow'' else if c = 4 then ''blue'' else ''green'')"

definition set_ring_node ::
  "('r \<Rightarrow> nat \<Rightarrow> nat \<times> 'r) \<Rightarrow> coord \<Rightarrow> int \<Rightarrow> planner \<times> 'r \<Rightarrow> int \<times> int \<Rightarrow> planner \<times> 'r" where
  "set_ring_node below center distance st d =
     (if \<bar>fst d\<bar> + \<bar>snd d\<bar> = distance
         \<and> (fst center + fst d, snd center + snd d) \<notin> obs (fst st)
         \<and> (fst center + fst d, snd center + snd d) \<noteq> s_start (fst st)
         \<and> (fst center + fst d, snd center + snd d) \<noteq> s_goal (fst st)
      then ((fst st)\<lparr>terrain_cost := (terrain_cost (fst st))
                        ((fst center + fst d, snd center + snd d) \<mapsto> fst (choice below (snd st) [2, 3, 4, 5])),
                    terrain_colors := (terrain_colors (fst st))
                        ((fst center + fst d, snd center + snd d) \<mapsto>
                           color_map (fst (choice below (snd st) [2, 3, 4, 5])))\<rparr>,
            snd (choice below (snd st) [2, 3, 4, 5 :: int]))
      else st)"

definition set_surrounding_costs ::
  "('r \<Rightarrow> nat \<Rightarrow> nat \<times> 'r) \<Rightarrow> planner \<times> 'r \<Rightarrow> coord \<Rightarrow> int \<Rightarrow> planner \<times> 'r" where
  "set_surrounding_costs below st center distance =
     foldl (set_ring_node below center distance) st
       (List.product [- distance..distance] [- distance..distance])"

text \<open>
  \<open>x_range = range(8, 43)\<close> and \<open>y_range = range(3, 28)\<close>; the loop body draws
  \<open>x = random.choice(list(x_range))\<close>, then \<open>y = random.choice(list(y_range))\<close>.
\<close>

definition x_range :: "int list" where
  "x_range = [8..42]"

definition y_range :: "int list" where
  "y_range = [3..27]"

definition draw_node :: "('r \<Rightarrow> nat \<Rightarrow> nat \<times> 'r) \<Rightarrow> 'r \<Rightarrow> coord \<times> 'r" where
  "draw_node below r =
     ((fst (choice below r x_range), fst (choice below (snd (choice below r x_range)) y_range)),
      snd (choice below (snd (choice below r x_range)) y_range))"

text \<open>
  The loop \<open>while placed < count and attempts < 1000\<close> (\<open>cnt\<close> is the source's
  \<open>count\<close>): the drawn coordinate is kept when it is free.
\<close>

function place_terrain ::
  "('r \<Rightarrow> nat \<Rightarrow> nat \<times> 'r) \<Rightarrow> int \<Rightarrow> string \<Rightarrow> nat \<Rightarrow> nat \<Rightarrow> nat \<Rightarrow> planner \<times> 'r \<Rightarrow> planner \<times> 'r" where
  "place_terrain below cost_value color cnt placed attempts st =
     (if placed < cnt \<and> attempts < 1000 then
        (if terrain_cost (fst st) (fst (draw_node below (snd st))) = None
          \<and> fst (draw_node below (snd st)) \<noteq> s_start (fst st)
          \<and> fst (draw_node below (snd st)) \<noteq> s_goal (fst st)
          \<and> fst (draw_node below (snd st)) \<notin> obs (fst st)
         then place_terrain below cost_value color cnt (placed + 1) (attempts + 1)
                ((fst st)\<lparr>terrain_cost := (terrain_cost (fst st))
                               (fst (draw_node below (snd st)) \<mapsto> cost_value),
                           terrain_colors := (terrain_colors (fst st))
                               (fst (draw_node below (snd st)) \<mapsto> color)\<rparr>,
                 snd (draw_node below (snd st)))
         else place_terrain below cost_value color cnt placed (attempts + 1)
                (fst st, snd (draw_node below (snd st))))
      else st)"
  by pat_completeness auto
termination
  by (relation "measure (\<lambda>(below, cost_value, color, cnt, placed, attempts, st). 1000 - attempts)") auto

declare place_terrain.simps [simp del]

definition terrain_types :: "(int \<times> string \<times> nat) list" where
  "terrain_types = [(2, ''red'', 40), (3, ''yellow'', 35), (4, ''blue'', 25), (5, ''green'', 30)]"

definition initialize_terrain :: "('r \<Rightarrow> nat \<Rightarrow> nat \<times> 'r) \<Rightarrow> planner \<times> 'r \<Rightarrow> planner \<times> 'r" where
  "initialize_terrain below st =
     foldl (\<lambda>st' t. place_terrain below (fst t) (fst (snd t)) (snd (snd t)) 0 0 st')
       (set_surrounding_costs below
          (set_surrounding_costs below st (s_start (fst st)) 3) (s_goal (fst st)) 3)
       terrain_types"

text \<open>
  \<open>AStar.__init__\<close>. \<open>env_obs\<close> stands for \<open>env.Env().obs\<close>, \<open>r\<close> for the state
  of the process-wide generator when the constructor is entered. The result is the new
  object and the generator state it leaves behind.
\<close>

definition AStar_init ::
  "(int \<Rightarrow> 'r) \<Rightarrow> ('r \<Rightarrow> nat \<Rightarrow> nat \<times> 'r) \<Rightarrow> coord set \<Rightarrow> 'r
   \<Rightarrow> coord \<Rightarrow> coord \<Rightarrow> string \<Rightarrow> real \<Rightarrow> planner \<times> 'r" where
  "AStar_init seed below env_obs r start goal htype weight =
     initialize_terrain below
       (\<lparr>s_start = start, s_goal = goal, heuristic_type = htype, heuristic_weight = weight,
         u_set = [(- 1, 0), (- 1, 1), (0, 1), (1, 1), (1, 0), (1, - 1), (0, - 1), (- 1, - 1)],
         obs = env_obs, OPEN = [], CLOSED = [], PARENT = Map.empty, g = Map.empty,
         terrain_cost = Map.empty, terrain_colors = Map.empty\<rparr>,
        seed 42)"

text \<open>
  \<open>Dijkstra.__init__\<close> runs the base constructor (weight 1.0 by default), restricts the
  moves, seeds again and builds the overlay a second time from empty dictionaries.
\<close>

definition Dijkstra_init ::
  "(int \<Rightarrow> 'r) \<Rightarrow> ('r \<Rightarrow> nat \<Rightarrow> nat \<times> 'r) \<Rightarrow> coord set \<Rightarrow> 'r
   \<Rightarrow> coord \<Rightarrow> coord \<Rightarrow> string \<Rightarrow> planner \<times> 'r" where
  "Dijkstra_init seed below env_obs r start goal htype =
     initialize_terrain below
       ((fst (AStar_init seed below env_obs r start goal htype 1))
          \<lparr>u_set := [(0, 1), (0, - 1), (- 1, 0), (1, 0)],
           terrain_cost := Map.empty, terrain_colors := Map.empty\<rparr>,
        seed 42)"

text \<open>\<open>BFS.__init__\<close> and \<open>DFS.__init__\<close>: the base constructor, then four moves.\<close>

definition BFS_init ::
  "(int \<Rightarrow> 'r) \<Rightarrow> ('r \<Rightarrow> nat \<Rightarrow> nat \<times> 'r) \<Rightarrow> coord set \<Rightarrow> 'r
   \<Rightarrow> coord \<Rightarrow> coord \<Rightarrow> string \<Rightarrow> planner \<times> 'r" where
  "BFS_init seed below env_obs r start goal htype =
     ((fst (AStar_init seed below env_obs r start goal htype 1))
        \<lparr>u_set := [(0, 1), (0, - 1), (- 1, 0), (1, 0)]\<rparr>,
      snd (AStar_init seed below env_obs r start goal htype 1))"

definition DFS_init ::
  "(int \<Rightarrow> 'r) \<Rightarrow> ('r \<Rightarrow> nat \<Rightarrow> nat \<times> 'r) \<Rightarrow> coord set \<Rightarrow> 'r
   \<Rightarrow> coord \<Rightarrow> coord \<Rightarrow> string \<Rightarrow> planner \<times> 'r" where
  "DFS_init seed below env_obs r start goal htype =
     ((fst (AStar_init seed below env_obs r start goal htype 1))
        \<lparr>u_set := [(0, 1), (0, - 1), (- 1, 0), (1, 0)]\<rparr>,
      snd (AStar_init seed below env_obs r start goal htype 1))"

section \<open>Specification predicates and example configurations\<close>

text \<open>A planner as a constructor leaves it: nothing searched yet.\<close>

definition fresh :: "planner \<Rightarrow> bool" where
  "fresh self = (OPEN self = [] \<and> CLOSED self = [] \<and> PARENT self = Map.empty \<and> g self = Map.empty)"

definition fresh_planner ::
  "coord \<Rightarrow> coord \<Rightarrow> string \<Rightarrow> real \<Rightarrow> (int \<times> int) list \<Rightarrow> coord set \<Rightarrow> (coord \<rightharpoonup> int) \<Rightarrow> planner" where
  "fresh_planner start goal htype weight moves blocked overlay =
     \<lparr>s_start = start, s_goal = goal, heuristic_type = htype, heuristic_weight = weight,
      u_set = moves, obs = blocked, OPEN = [], CLOSED = [], PARENT = Map.empty, g = Map.empty,
      terrain_cost = overlay, terrain_colors = Map.empty\<rparr>"

definition dirs8 :: "(int \<times> int) list" where
  "dirs8 = [(- 1, 0), (- 1, 1), (0, 1), (1, 1), (1, 0), (1, - 1), (0, - 1), (- 1, - 1)]"

definition dirs4 :: "(int \<times> int) list" where
  "dirs4 = [(0, 1), (0, - 1), (- 1, 0), (1, 0)]"

text \<open>The fields a search never writes.\<close>

definition same_config :: "planner \<Rightarrow> planner \<Rightarrow> bool" where
  "same_config a b =
     (s_start a = s_start b \<and> s_goal a = s_goal b \<and> heuristic_type a = heuristic_type b
      \<and> heuristic_weight a = heuristic_weight b \<and> u_set a = u_set b \<and> obs a = obs b
      \<and> terrain_cost a = terrain_cost b \<and> terrain_colors a = terrain_colors b)"

text \<open>
  No blocked coordinate other than the start has a parent or a finite cost-to-come in
  \<open>st\<close>, a state of the planner \<open>self\<close>.
\<close>

definition untouched :: "planner \<Rightarrow> planner \<Rightarrow> bool" where
  "untouched self st =
     (same_config self st \<and>
      (\<forall>c. c \<in> obs self \<and> c \<noteq> s_start self \<longrightarrow>
           PARENT st c = None \<and> (g st c = None \<or> g st c = Some PosInf)))"

text \<open>A single obstacle beside the diagonal from \<open>(0, 0)\<close> to \<open>(1, 1)\<close>.\<close>

definition one_corner :: planner where
  "one_corner = fresh_planner (0, 0) (1, 1) ''euclidean'' 1 dirs8 {(0, 1)} Map.empty"

text \<open>An obstacle east of the start, the goal west of it.\<close>

definition blocked_east :: planner where
  "blocked_east = fresh_planner (0, 0) (- 1, 0) ''None'' 1 dirs4 {(1, 0)} Map.empty"

text \<open>Every multiplier of the overlay is a positive integer.\<close>

definition terrain_positive :: "planner \<Rightarrow> bool" where
  "terrain_positive self = (\<forall>c v. terrain_cost self c = Some v \<longrightarrow> 1 \<le> v)"

text \<open>Every step of the list is a move of the topology that does not collide.\<close>

fun valid_moves :: "planner \<Rightarrow> coord list \<Rightarrow> bool" where
  "valid_moves self (a # b # rest) =
     (b \<in> set (get_neighbor self a) \<and> \<not> is_collision self a b \<and> valid_moves self (b # rest))"
| "valid_moves self [a] = True"
| "valid_moves self [] = True"

text \<open>
  The bookkeeping of a search in state \<open>st\<close>: the start is the root, and every other
  parent link is a free move whose source is at least one unit cheaper than its target.
\<close>

definition linked :: "planner \<Rightarrow> planner \<Rightarrow> bool" where
  "linked self st =
     (same_config self st
      \<and> g st (s_start self) = Some (Fin 0)
      \<and> PARENT st (s_start self) = Some (s_start self)
      \<and> (\<forall>x v. g st x = Some (Fin v) \<longrightarrow> 0 \<le> v \<and> PARENT st x \<noteq> None)
      \<and> (\<forall>x p. PARENT st x = Some p \<and> x \<noteq> s_start self \<longrightarrow>
             (\<exists>gx gp. g st x = Some (Fin gx) \<and> g st p = Some (Fin gp) \<and> gp + 1 \<le> gx)
             \<and> x \<in> set (get_neighbor self p) \<and> \<not> is_collision self p x))"

text \<open>Every queued and every finalized coordinate has a parent entry.\<close>

definition discovered :: "planner \<Rightarrow> bool" where
  "discovered st =
     ((\<forall>e. e \<in> set (OPEN st) \<longrightarrow> PARENT st (snd e) \<noteq> None)
      \<and> (\<forall>c. c \<in> set (CLOSED st) \<longrightarrow> PARENT st c \<noteq> None))"

text \<open>A cost method is finite only on free moves, and at least 1 between distinct cells.\<close>

definition good_cost :: "(planner \<Rightarrow> coord \<Rightarrow> coord \<Rightarrow> number) \<Rightarrow> planner \<Rightarrow> bool" where
  "good_cost cost self =
     (\<forall>st a b c. same_config self st \<longrightarrow> cost st a b = Fin c \<longrightarrow>
        \<not> is_collision self a b \<and> 0 \<le> c \<and> (a \<noteq> b \<longrightarrow> 1 \<le> c))"

text \<open>A walled corridor from \<open>(0, 0)\<close> around the obstacle \<open>(1, 0)\<close> to \<open>(2, 0)\<close>.\<close>

definition corridor :: planner where
  "corridor = fresh_planner (0, 0) (2, 0) ''None'' 1 dirs4
     {(1, 0), (0, - 1), (- 1, 0), (0, 2), (- 1, 1), (1, 2), (2, 2), (3, 1)} Map.empty"

text \<open>Start and goal coincide.\<close>

definition trivial_search :: planner where
  "trivial_search = fresh_planner (0, 0) (0, 0) ''euclidean'' 1 dirs8 {} Map.empty"



text \<open>
  A walled block of four free cells and the goal east of it; the cell \<open>(1, 1)\<close> and the
  goal carry the multiplier 5. Weight 0, eight moves.
\<close>

definition stale_pop :: planner where
  "stale_pop = fresh_planner (0, 0) (2, 1) ''euclidean'' 0 dirs8
     {(- 1, - 1), (0, - 1), (1, - 1), (2, - 1), (- 1, 0), (2, 0), (- 1, 1), (- 1, 2), (0, 2), (1, 2),
      (2, 2), (3, 0), (3, 1), (3, 2)}
     [(1, 1) \<mapsto> 5, (2, 1) \<mapsto> 5]"

text \<open>The state in which \<open>AStar.searching\<close> enters its loop on that planner.\<close>

definition stale_pop_begin :: planner where
  "stale_pop_begin = (init_search stale_pop)\<lparr>OPEN := heappush (OPEN stale_pop) (Fin 0, s_start stale_pop)\<rparr>"

text \<open>
  The coordinates queued or finalized, with multiplicity: one for each entry of the open
  list and one for each element of the closed list.
\<close>

definition pending :: "planner \<Rightarrow> coord multiset" where
  "pending st = mset (map snd (OPEN st)) + mset (CLOSED st)"

text \<open>No obstacle; the goal is the eastern neighbour of the start.\<close>

definition open_grid :: planner where
  "open_grid = fresh_planner (5, 5) (6, 5) ''None'' 1 dirs4 {} Map.empty"

text \<open>The start is walled in on its four sides; the goal lies outside.\<close>

definition enclosed :: planner where
  "enclosed = fresh_planner (0, 0) (3, 3) ''euclidean'' 1 dirs8 {(0, 1), (0, - 1), (- 1, 0), (1, 0)} Map.empty"

text \<open>
  Every coordinate ever pushed is finalized or still on the stack, exactly once, and these
  are the visited coordinates.
\<close>

definition pushed_once :: "dfs_state \<Rightarrow> bool" where
  "pushed_once st =
     (distinct (CLOSED (dfs_self st) @ stack st)
      \<and> visited st = set (CLOSED (dfs_self st) @ stack st))"

text \<open>What the overlay generator reads: the anchors, the obstacles, the overlay built so far, and the generator state.\<close>

definition overlay_input :: "planner \<times> 'r \<Rightarrow> (coord \<times> coord \<times> coord set \<times> (coord \<rightharpoonup> int) \<times> (coord \<rightharpoonup> string)) \<times> 'r" where
  "overlay_input st =
     ((s_start (fst st), s_goal (fst st), obs (fst st), terrain_cost (fst st), terrain_colors (fst st)),
      snd st)"

text \<open>The two dictionaries of the overlay.\<close>

definition overlay_of :: "planner \<Rightarrow> (coord \<rightharpoonup> int) \<times> (coord \<rightharpoonup> string)" where
  "overlay_of self = (terrain_cost self, terrain_colors self)"

text \<open>What the overlay generator never writes.\<close>

definition anchors :: "planner \<times> 'r \<Rightarrow> coord \<times> coord \<times> coord set" where
  "anchors st = (s_start (fst st), s_goal (fst st), obs (fst st))"


text \<open>
  A trail of cost \<open>k\<close>: distinct cells, the last one the start, whose multipliers (the
  start's left out) sum to \<open>k\<close>; every cell after the first has a recorded cost-to-come
  no larger than the cost of the trail from it on.
\<close>

fun trail :: "planner \<Rightarrow> (coord \<rightharpoonup> number) \<Rightarrow> coord list \<Rightarrow> int \<Rightarrow> bool" where
  "trail self G [] k = False"
| "trail self G [x] k = (x = s_start self \<and> k = 0)"
| "trail self G (x # p # rest) k =
     (x \<notin> set (p # rest)
      \<and> (case G p of Some (Fin w) \<Rightarrow> w \<le> real_of_int (k - get_terrain_cost self x) | _ \<Rightarrow> False)
      \<and> trail self G (p # rest) (k - get_terrain_cost self x))"

text \<open>
  Every finite cost-to-come of the state \<open>st\<close> of the planner \<open>self\<close> is the cost of
  a trail inside the region.
\<close>

definition tracked :: "planner \<Rightarrow> coord list \<Rightarrow> planner \<Rightarrow> bool" where
  "tracked self region st =
     (same_config self st
      \<and> (\<forall>x v. g st x = Some (Fin v) \<longrightarrow>
            (\<exists>T k. v = real_of_int k \<and> trail self (g st) (x # T) k \<and> set (x # T) \<subseteq> set region)))"



text \<open>
  The bookkeeping of a depth-first search: the visited coordinates are those with a parent
  entry, every cost-to-come is finite, and the stack and the closed list hold visited
  coordinates only.
\<close>

definition dfs_linked :: "planner \<Rightarrow> dfs_state \<Rightarrow> bool" where
  "dfs_linked self st =
     (linked self (dfs_self st) \<and> OPEN (dfs_self st) = []
      \<and> (\<forall>x. x \<in> visited st \<longleftrightarrow> PARENT (dfs_self st) x \<noteq> None)
      \<and> (\<forall>x n. g (dfs_self st) x = Some n \<longrightarrow> n \<noteq> PosInf)
      \<and> (\<forall>x p. PARENT (dfs_self st) x = Some p \<longrightarrow> p \<in> visited st)
      \<and> set (stack st) \<subseteq> visited st \<and> set (CLOSED (dfs_self st)) \<subseteq> visited st)"

section \<open>The collision predicate\<close>

text \<open>
  C1, as the code has it: for a diagonal move (both coordinates change by the same
  non-zero amount) the predicate holds exactly when an endpoint or at least one of the two
  corner cells beside the diagonal is blocked, and the edge cost is infinite exactly when
  the predicate holds.
\<close>

theorem is_collision_diagonal:
  assumes "fst a \<noteq> fst b" and "\<bar>fst b - fst a\<bar> = \<bar>snd b - snd a\<bar>"
  shows "is_collision self a b =
           (a \<in> obs self \<or> b \<in> obs self \<or> (fst a, snd b) \<in> obs self \<or> (fst b, snd a) \<in> obs self)
         \<and> (AStar_cost self a b = PosInf) = is_collision self a b"
proof -
  have ne: "snd a \<noteq> snd b" using assms by auto
  consider (anti) "fst b - fst a = snd a - snd b" | (main) "fst b - fst a = snd b - snd a"
    using assms(2) by (auto simp: abs_if split: if_splits)
  then have "is_collision self a b =
           (a \<in> obs self \<or> b \<in> obs self \<or> (fst a, snd b) \<in> obs self \<or> (fst b, snd a) \<in> obs self)"
  proof cases
    case anti
    then show ?thesis using assms(1) ne
      by (cases "fst a < fst b") (auto simp: is_collision_def min_def max_def)
  next
    case main
    then show ?thesis using assms(1) ne
      by (cases "fst a < fst b") (auto simp: is_collision_def min_def max_def)
  qed
  then show ?thesis by (simp add: AStar_cost_def)
qed

theorem is_collision_diagonal_witness:
  "is_collision one_corner (0, 0) (1, 1) \<and> AStar_cost one_corner (0, 0) (1, 1) = PosInf"
  using is_collision_diagonal [of "(0, 0)" "(1, 1)" one_corner]
  by (simp add: one_corner_def fresh_planner_def)

text \<open>
  The claim as stated fails: with free endpoints and only the corner \<open>(0, 1)\<close> blocked,
  the move is reported blocked and costs \<open>+\<infinity>\<close>.
\<close>

theorem one_corner_counterexample:
  "\<not> (is_collision one_corner (0, 0) (1, 1) \<longleftrightarrow>
        ((0, 0) \<in> obs one_corner \<or> (1, 1) \<in> obs one_corner
         \<or> ((0, 1) \<in> obs one_corner \<and> (1, 0) \<in> obs one_corner)))
   \<and> AStar_cost one_corner (0, 0) (1, 1) = PosInf"
  by (simp add: one_corner_def fresh_planner_def is_collision_def AStar_cost_def)

section \<open>The conversion of an integer to a float\<close>

lemma bit_length_0 [simp]: "bit_length 0 = 0"
  by (subst bit_length.simps) simp

lemma bit_length_pos: "0 < n \<Longrightarrow> bit_length n = Suc (bit_length (n div 2))"
  by (subst bit_length.simps) simp

lemma bit_length_le: "n < 2 ^ m \<Longrightarrow> bit_length n \<le> m"
proof (induction m arbitrary: n)
  case 0
  then show ?case by simp
next
  case (Suc m)
  show ?case
  proof (cases "n = 0")
    case True
    then show ?thesis by simp
  next
    case False
    from Suc.prems have "n div 2 < 2 ^ m" by simp
    from Suc.IH [OF this] False show ?thesis by (simp add: bit_length_pos)
  qed
qed

lemma bit_length_lower: "0 < n \<Longrightarrow> 2 ^ (bit_length n - 1) \<le> n"
proof (induction n rule: less_induct)
  case (less n)
  have bl: "bit_length n = Suc (bit_length (n div 2))" using less.prems by (rule bit_length_pos)
  show ?case
  proof (cases "n div 2 = 0")
    case True
    then show ?thesis using less.prems bl by simp
  next
    case False
    then have pos: "0 < n div 2" by simp
    have "n div 2 < n" using less.prems by simp
    from less.IH [OF this pos] have ih: "2 ^ (bit_length (n div 2) - 1) \<le> n div 2" .
    obtain k where k: "bit_length (n div 2) = Suc k"
      using bit_length_pos [OF pos] by simp
    from ih k have "2 ^ k \<le> n div 2" by simp
    then have "2 * 2 ^ k \<le> 2 * (n div 2)" by simp
    also have "\<dots> \<le> n" by simp
    finally show ?thesis using bl k by simp
  qed
qed

lemma round_half_even_0 [simp]: "round_half_even 0 n = n"
  by (simp add: round_half_even_def)

lemma round_half_even_lower: "n div 2 ^ e * 2 ^ e \<le> round_half_even e n"
  by (simp add: round_half_even_def)

text \<open>An integer of fewer than 54 bits is a float.\<close>

lemma float_of_nat_small: "n < 2 ^ 53 \<Longrightarrow> float_of_nat n = real n"
proof -
  assume "n < 2 ^ 53"
  then have "bit_length n \<le> 53" by (rule bit_length_le)
  then have "bit_length n - 53 = 0" by simp
  then show ?thesis by (simp add: float_of_nat_def)
qed

lemma float_of_nat_ge_1: "1 \<le> n \<Longrightarrow> 1 \<le> float_of_nat n"
proof -
  assume n: "1 \<le> n"
  define e where "e = bit_length n - 53"
  have "(2 :: nat) ^ e \<le> 2 ^ (bit_length n - 1)" unfolding e_def by (rule power_increasing) simp_all
  also have "\<dots> \<le> n" using bit_length_lower [of n] n by simp
  finally have le: "(2 :: nat) ^ e \<le> n" .
  have "(2 :: nat) ^ e = 2 ^ e div 2 ^ e * 2 ^ e" by simp
  also have "\<dots> \<le> n div 2 ^ e * 2 ^ e" using le by (intro mult_le_mono1 div_le_mono)
  finally have "(2 :: nat) ^ e \<le> n div 2 ^ e * 2 ^ e" .
  moreover have "(1 :: nat) \<le> 2 ^ e" by simp
  ultimately have "1 \<le> n div 2 ^ e * 2 ^ e" by (rule order_trans [rotated])
  with round_half_even_lower [of n e] have "1 \<le> round_half_even e n" by linarith
  then show ?thesis unfolding float_of_nat_def e_def by simp
qed

lemma float_of_int_small: "\<bar>k\<bar> < 2 ^ 53 \<Longrightarrow> float_of_int k = real_of_int k"
proof -
  assume k: "\<bar>k\<bar> < 2 ^ 53"
  then have "nat \<bar>k\<bar> < 2 ^ 53" by (simp add: nat_less_iff)
  then have "float_of_nat (nat \<bar>k\<bar>) = real (nat \<bar>k\<bar>)" by (rule float_of_nat_small)
  then show ?thesis by (cases "k < 0") (simp_all add: float_of_int_def)
qed

lemma float_of_int_ge_1: "1 \<le> k \<Longrightarrow> 1 \<le> float_of_int k"
  using float_of_nat_ge_1 [of "nat k"] by (simp add: float_of_int_def)


section \<open>The heap keeps its entries\<close>

lemma mset_update_swap:
  assumes "i < length xs" and "j < length xs"
  shows "mset (xs[i := xs ! j, j := v]) = mset (xs[i := v])"
proof (cases "i = j")
  case True
  then show ?thesis by simp
next
  case False
  then show ?thesis
    using assms by (simp add: mset_update nth_list_update_neq)
qed

lemma siftdown_loop_length [simp]:
  "length (siftdown_loop heap startpos newitem pos) = length heap"
  by (induction heap startpos newitem pos rule: siftdown_loop.induct)
     (subst siftdown_loop.simps, simp)

lemma siftdown_loop_mset:
  "pos < length heap \<Longrightarrow>
   mset (siftdown_loop heap startpos newitem pos) = mset (heap[pos := newitem])"
proof (induction heap startpos newitem pos rule: siftdown_loop.induct)
  case (1 heap startpos newitem pos)
  show ?case
  proof (cases "pos > startpos \<and> entry_less newitem (heap ! ((pos - 1) div 2))")
    case True
    have lt: "(pos - 1) div 2 < length heap" using "1.prems" by simp
    have "mset (siftdown_loop (heap[pos := heap ! ((pos - 1) div 2)]) startpos newitem ((pos - 1) div 2))
          = mset (heap[pos := heap ! ((pos - 1) div 2), (pos - 1) div 2 := newitem])"
      using "1.IH" True lt by simp
    also have "\<dots> = mset (heap[pos := newitem])"
      using "1.prems" lt by (rule mset_update_swap)
    finally show ?thesis using True by (subst siftdown_loop.simps) simp
  next
    case False
    then show ?thesis by (subst siftdown_loop.simps) auto
  qed
qed

lemma smaller_child_less: "childpos < endpos \<Longrightarrow> smaller_child heap endpos childpos < endpos"
  by (simp add: smaller_child_def)

lemma siftup_loop_props:
  "pos < length heap \<Longrightarrow> endpos = length heap \<Longrightarrow>
   length (fst (siftup_loop heap endpos pos childpos)) = length heap
   \<and> snd (siftup_loop heap endpos pos childpos) < length heap
   \<and> mset ((fst (siftup_loop heap endpos pos childpos))[snd (siftup_loop heap endpos pos childpos) := v])
       = mset (heap[pos := v])"
proof (induction heap endpos pos childpos rule: siftup_loop.induct)
  case (1 heap endpos pos childpos)
  show ?case
  proof (cases "childpos < endpos")
    case True
    let ?c = "smaller_child heap endpos childpos"
    have c: "?c < length heap" using True "1.prems" by (simp add: smaller_child_less)
    have eq: "siftup_loop heap endpos pos childpos
              = siftup_loop (heap[pos := heap ! ?c]) endpos ?c (2 * ?c + 1)"
      using True by (subst siftup_loop.simps) simp
    have ih: "length (fst (siftup_loop (heap[pos := heap ! ?c]) endpos ?c (2 * ?c + 1))) = length heap
       \<and> snd (siftup_loop (heap[pos := heap ! ?c]) endpos ?c (2 * ?c + 1)) < length heap
       \<and> mset ((fst (siftup_loop (heap[pos := heap ! ?c]) endpos ?c (2 * ?c + 1)))
                 [snd (siftup_loop (heap[pos := heap ! ?c]) endpos ?c (2 * ?c + 1)) := v])
           = mset (heap[pos := heap ! ?c, ?c := v])"
      using "1.IH" [OF True] c "1.prems" by simp
    have "mset (heap[pos := heap ! ?c, ?c := v]) = mset (heap[pos := v])"
      using "1.prems"(1) c by (rule mset_update_swap)
    with ih eq show ?thesis by simp
  next
    case False
    then show ?thesis using "1.prems" by (subst (1 2 3 4) siftup_loop.simps) simp
  qed
qed

lemma siftup_mset: "pos < length heap \<Longrightarrow> mset (siftup heap pos) = mset heap"
proof -
  assume p: "pos < length heap"
  let ?r = "siftup_loop heap (length heap) pos (2 * pos + 1)"
  from siftup_loop_props [OF p refl, of "2 * pos + 1" "heap ! pos"]
  have len: "length (fst ?r) = length heap" and lt: "snd ?r < length heap"
    and ms: "mset ((fst ?r)[snd ?r := heap ! pos]) = mset (heap[pos := heap ! pos])"
    by simp_all
  have "mset (siftup heap pos) = mset (((fst ?r)[snd ?r := heap ! pos])[snd ?r := ((fst ?r)[snd ?r := heap ! pos]) ! snd ?r])"
    unfolding siftup_def siftdown_def using len lt by (simp add: siftdown_loop_mset)
  also have "\<dots> = mset ((fst ?r)[snd ?r := heap ! pos])" by simp
  also have "\<dots> = mset heap" using ms by simp
  finally show ?thesis .
qed

lemma heappush_mset: "mset (heappush heap item) = add_mset item (mset heap)"
  by (simp add: heappush_def siftdown_def siftdown_loop_mset)

lemma heappop_mset:
  assumes "heappop heap = Inr r"
  shows "mset heap = add_mset (fst r) (mset (snd r))"
proof -
  have ne: "heap \<noteq> []" using assms by (auto simp: heappop_def)
  then have split: "heap = butlast heap @ [last heap]" by simp
  show ?thesis
  proof (cases "butlast heap = []")
    case True
    then have "heap = [last heap]" using split by simp
    moreover have "r = (last heap, [])" using assms ne True by (simp add: heappop_def)
    ultimately have "mset heap = {#fst r#}" and "snd r = []"
      by (metis fst_conv mset_single_iff_right, simp)
    then show ?thesis by simp
  next
    case False
    then have r: "r = (hd heap, siftup ((butlast heap)[0 := last heap]) 0)"
      using assms ne by (simp add: heappop_def)
    obtain x xs where bl: "butlast heap = x # xs" using False by (cases "butlast heap") auto
    then have hd: "hd heap = x" using split by (metis hd_append2 list.sel(1) False)
    have "mset (snd r) = mset ((butlast heap)[0 := last heap])"
      using r bl by (simp add: siftup_mset)
    also have "\<dots> = add_mset (last heap) (mset xs)" using bl by simp
    finally have "add_mset (fst r) (mset (snd r)) = add_mset x (add_mset (last heap) (mset xs))"
      using r hd by simp
    also have "\<dots> = mset (butlast heap @ [last heap])" using bl by simp
    finally show ?thesis using split by simp
  qed
qed


section \<open>Invariants of the search loop\<close>

lemma same_config_refl [simp]: "same_config a a"
  by (simp add: same_config_def)

lemma same_config_trans: "same_config a b \<Longrightarrow> same_config b c \<Longrightarrow> same_config a c"
  by (simp add: same_config_def)

lemma relax_config:
  "relax cost prior st s s_n = Inr st' \<Longrightarrow> same_config st st' \<and> CLOSED st' = CLOSED st"
  by (auto simp: relax_def same_config_def Let_def split: option.splits if_splits sum.splits)


lemma relax_all_rule:
  assumes "relax_all cost prior st s ns = Inr st'"
    and "I st"
    and "set ns \<subseteq> set (get_neighbor st s)"
    and step: "\<And>st s_n st'. I st \<Longrightarrow> s_n \<in> set (get_neighbor st s)
                \<Longrightarrow> relax cost prior st s s_n = Inr st' \<Longrightarrow> I st'"
  shows "I st'"
  using assms(1-3)
proof (induction ns arbitrary: st)
  case Nil
  then show ?case by simp
next
  case (Cons n ns)
  then obtain st1 where r: "relax cost prior st s n = Inr st1"
    and rest: "relax_all cost prior st1 s ns = Inr st'"
    by (auto split: sum.splits)
  have "I st1" using step [OF Cons.prems(2) _ r] Cons.prems(3) by simp
  moreover have "get_neighbor st1 s = get_neighbor st s"
    using relax_config [OF r] by (simp add: same_config_def get_neighbor_def)
  ultimately show ?case using Cons.IH [OF rest] Cons.prems(3) by simp
qed

lemma search_loop_rule:
  assumes run: "search_loop cost prior st = Some (Inr st')"
    and init: "I st"
    and pop: "\<And>st popped. I st \<Longrightarrow> OPEN st \<noteq> [] \<Longrightarrow> heappop (OPEN st) = Inr popped
               \<Longrightarrow> I (st\<lparr>OPEN := snd popped, CLOSED := CLOSED st @ [snd (fst popped)]\<rparr>)"
    and step: "\<And>st s s_n st'. I st \<Longrightarrow> s_n \<in> set (get_neighbor st s)
                \<Longrightarrow> relax cost prior st s s_n = Inr st' \<Longrightarrow> I st'"
  shows "I st'"
proof -
  have "cost = cost \<longrightarrow> prior = prior \<longrightarrow> (\<forall>fin. (Inr st' :: error + planner) = Inr fin \<longrightarrow> I st \<longrightarrow> I fin)"
  proof (rule search_loop.raw_induct
      [where P = "\<lambda>c p s0 r. c = cost \<longrightarrow> p = prior \<longrightarrow> (\<forall>fin. r = Inr fin \<longrightarrow> I s0 \<longrightarrow> I fin)", OF _ run])
    fix loop c p self r
    assume IH: "\<And>c p s0 r. loop c p s0 = Some r \<Longrightarrow>
                  c = cost \<longrightarrow> p = prior \<longrightarrow> (\<forall>fin. r = Inr fin \<longrightarrow> I s0 \<longrightarrow> I fin)"
      and body: "(if OPEN self = [] then Some (Inr self)
        else case heappop (OPEN self) of Inl e \<Rightarrow> Some (Inl e)
           | Inr popped \<Rightarrow>
               if snd (fst popped) = s_goal self
               then Some (Inr (self\<lparr>OPEN := snd popped, CLOSED := CLOSED self @ [snd (fst popped)]\<rparr>))
               else case relax_all c p
                          (self\<lparr>OPEN := snd popped, CLOSED := CLOSED self @ [snd (fst popped)]\<rparr>)
                          (snd (fst popped)) (get_neighbor self (snd (fst popped))) of
                    Inl e \<Rightarrow> Some (Inl e)
                    | Inr self' \<Rightarrow> loop c p self') = Some r"
    show "c = cost \<longrightarrow> p = prior \<longrightarrow> (\<forall>fin. r = Inr fin \<longrightarrow> I self \<longrightarrow> I fin)"
    proof (intro allI impI)
      fix fin
      assume c: "c = cost" and p: "p = prior" and r: "r = Inr fin" and I: "I self"
      show "I fin"
      proof (cases "OPEN self = []")
        case True
        with body r show ?thesis using I by simp
      next
        case False
        with body r obtain popped where pp: "heappop (OPEN self) = Inr popped"
          by (auto split: sum.splits)
        let ?mid = "self\<lparr>OPEN := snd popped, CLOSED := CLOSED self @ [snd (fst popped)]\<rparr>"
        have mid: "I ?mid" using pop [OF I False pp] .
        show ?thesis
        proof (cases "snd (fst popped) = s_goal self")
          case True
          with body r False pp show ?thesis using mid by simp
        next
          case ng: False
          with body r False pp obtain st2 where
            ra: "relax_all cost prior ?mid (snd (fst popped)) (get_neighbor self (snd (fst popped))) = Inr st2"
            and rec: "loop c p st2 = Some r"
            unfolding c p by (auto split: sum.splits)
          have "get_neighbor ?mid (snd (fst popped)) = get_neighbor self (snd (fst popped))"
            by (simp add: get_neighbor_def)
          then have "I st2"
            using relax_all_rule [where I = I, OF ra mid _ step] by simp
          with IH [OF rec] r c p show ?thesis by simp
        qed
      qed
    qed
  qed
  with init show ?thesis by blast
qed


section \<open>Blocked coordinates\<close>

lemma relax_untouched:
  assumes "untouched self st" and "relax cost prior st s s_n = Inr st'"
    and blocked: "\<And>st a b. b \<in> obs st \<Longrightarrow> cost st a b = PosInf"
  shows "untouched self st'"
proof -
  have cfg: "same_config self st'"
    using assms(1) relax_config [OF assms(2)] by (auto simp: untouched_def intro: same_config_trans)
  have obs: "obs st = obs self" using assms(1) by (simp add: untouched_def same_config_def)
  have "PARENT st' c = None \<and> (g st' c = None \<or> g st' c = Some PosInf)"
    if c: "c \<in> obs self" "c \<noteq> s_start self" for c
  proof -
    have old: "PARENT st c = None \<and> (g st c = None \<or> g st c = Some PosInf)"
      using assms(1) c unfolding untouched_def by blast
    show ?thesis
    proof (cases "c = s_n")
      case True
      then have "cost st s s_n = PosInf" using blocked c obs by simp
      then have "\<And>gs x. \<not> num_less (num_add gs (cost st s s_n)) x"
        by (metis num_add.simps(2) num_add.elims num_less.simps(3) number.distinct(1))
      with assms(2) old True show ?thesis
        by (auto simp: relax_def Let_def split: option.splits if_splits sum.splits)
    next
      case False
      with assms(2) old show ?thesis
        by (auto simp: relax_def Let_def split: option.splits if_splits sum.splits)
    qed
  qed
  with cfg show ?thesis by (simp add: untouched_def)
qed

lemma search_loop_untouched:
  assumes "search_loop cost prior st = Some (Inr st')" and "untouched self st"
    and blocked: "\<And>st a b. b \<in> obs st \<Longrightarrow> cost st a b = PosInf"
  shows "untouched self st'"
proof (rule search_loop_rule [where I = "untouched self", OF assms(1,2)])
  fix st popped
  assume "untouched self st"
  then show "untouched self (st\<lparr>OPEN := snd popped, CLOSED := CLOSED st @ [snd (fst popped)]\<rparr>)"
    by (simp add: untouched_def same_config_def)
next
  fix st s s_n st'
  assume "untouched self st" and "relax cost prior st s s_n = Inr st'"
  then show "untouched self st'" using relax_untouched blocked by blast
qed

lemma init_untouched:
  "fresh self \<Longrightarrow> untouched self ((init_search self)\<lparr>OPEN := h\<rparr>)"
  by (auto simp: fresh_def untouched_def init_search_def same_config_def)

lemma cost_blocked:
  "b \<in> obs st \<Longrightarrow> AStar_cost st a b = PosInf"
  "b \<in> obs st \<Longrightarrow> Dijkstra_cost st a b = PosInf"
  "b \<in> obs st \<Longrightarrow> BFS_cost st a b = PosInf"
  by (simp_all add: AStar_cost_def Dijkstra_cost_def BFS_cost_def is_collision_def)

lemma run_untouched:
  assumes "fresh self" and "run \<in> {AStar_run, Dijkstra_run, BFS_run}"
    and "run self = Some (Inr self')"
  shows "untouched self self'"
proof -
  consider (a) "run = AStar_run" | (d) "run = Dijkstra_run" | (b) "run = BFS_run"
    using assms(2) by auto
  then show ?thesis
  proof cases
    case a
    with assms(3) obtain f where
      "search_loop AStar_cost AStar_prior ((init_search self)\<lparr>OPEN := heappush (OPEN self) (f, s_start self)\<rparr>)
         = Some (Inr self')"
      by (auto simp: AStar_run_def split: sum.splits)
    then show ?thesis
      using search_loop_untouched init_untouched [OF assms(1)] cost_blocked(1) by blast
  next
    case d
    with assms(3) show ?thesis
      using search_loop_untouched init_untouched [OF assms(1)] cost_blocked(2)
      unfolding Dijkstra_run_def by blast
  next
    case b
    with assms(3) show ?thesis
      using search_loop_untouched init_untouched [OF assms(1)] cost_blocked(3)
      unfolding BFS_run_def by blast
  qed
qed

lemma extract_loop_members:
  assumes "extract_loop self parent s path = Some (Inr res)"
  shows "parent s \<noteq> None \<and> set res \<subseteq> set path \<union> {s_start self} \<union> dom parent"
proof -
  have "\<forall>r. (Inr res :: error + coord list) = Inr r \<longrightarrow>
          parent s \<noteq> None \<and> set r \<subseteq> set path \<union> {s_start self} \<union> dom parent"
  proof (rule extract_loop.raw_induct
      [where P = "\<lambda>self parent s path y. \<forall>res. y = Inr res \<longrightarrow>
          parent s \<noteq> None \<and> set res \<subseteq> set path \<union> {s_start self} \<union> dom parent", OF _ assms])
    fix loop self parent s path y
    assume IH: "\<And>self parent s path y. loop self parent s path = Some y \<Longrightarrow>
        \<forall>res. y = Inr res \<longrightarrow>
          parent s \<noteq> None \<and> set res \<subseteq> set path \<union> {s_start self} \<union> dom parent"
      and body: "(case parent s of None \<Rightarrow> Some (Inl KeyError)
          | Some p \<Rightarrow> if p = s_start self then Some (Inr (path @ [p]))
                      else loop self parent p (path @ [p])) = Some y"
    show "\<forall>res. y = Inr res \<longrightarrow>
          parent s \<noteq> None \<and> set res \<subseteq> set path \<union> {s_start self} \<union> dom parent"
    proof (intro allI impI)
      fix res assume y: "y = Inr res"
      from body y obtain p where p: "parent s = Some p" by (auto split: option.splits)
      show "parent s \<noteq> None \<and> set res \<subseteq> set path \<union> {s_start self} \<union> dom parent"
      proof (cases "p = s_start self")
        case True
        with body y p show ?thesis by auto
      next
        case False
        with body p have "loop self parent p (path @ [p]) = Some y" by simp
        from IH [OF this] y have "parent p \<noteq> None"
          and "set res \<subseteq> set (path @ [p]) \<union> {s_start self} \<union> dom parent" by auto
        then show ?thesis using p by auto
      qed
    qed
  qed
  then show ?thesis by simp
qed

text \<open>
  C9: after a run of the A*, Dijkstra or breadth-first loop on a fresh planner, no blocked
  coordinate other than the start has a parent entry or a finite cost-to-come, and when
  the start is free no coordinate of a returned path is blocked.
\<close>

theorem blocked_never_reached:
  assumes "fresh self" and "run \<in> {AStar_run, Dijkstra_run, BFS_run}"
    and "run self = Some (Inr self')"
  shows "(\<forall>c. c \<in> obs self \<and> c \<noteq> s_start self \<longrightarrow>
            PARENT self' c = None \<and> (g self' c = None \<or> g self' c = Some PosInf))
       \<and> (s_start self \<notin> obs self \<longrightarrow>
            (\<forall>path closed. finish (run self) = Some (Inr (path, closed)) \<longrightarrow>
               set path \<inter> obs self = {}))"
proof -
  have u: "untouched self self'" using run_untouched [OF assms] .
  have "set path \<inter> obs self = {}"
    if start: "s_start self \<notin> obs self" and fin: "finish (run self) = Some (Inr (path, closed))"
    for path closed
  proof -
    from fin assms(3) have "extract_path self' (PARENT self') = Some (Inr path)"
      by (auto simp: finish_def split: option.splits sum.splits)
    then have "set path \<subseteq> {s_goal self'} \<union> {s_start self'} \<union> dom (PARENT self')"
      and "PARENT self' (s_goal self') \<noteq> None"
      using extract_loop_members [of self' "PARENT self'" "s_goal self'" "[s_goal self']" path]
      by (auto simp: extract_path_def)
    then have "set path \<subseteq> {s_start self} \<union> dom (PARENT self')"
      using u by (auto simp: untouched_def same_config_def)
    moreover have "\<And>c. c \<in> obs self \<Longrightarrow> c \<noteq> s_start self \<Longrightarrow> PARENT self' c = None"
      using u unfolding untouched_def by blast
    ultimately show ?thesis using start by (fastforce simp: dom_def)
  qed
  with u show ?thesis unfolding untouched_def by blast
qed

text \<open>Rules to run the model on concrete inputs.\<close>

lemmas heap_eval = heappush_def heappop_def siftdown_def siftup_def smaller_child_def
  siftdown_loop.simps siftup_loop.simps entry_less_def coord_less_def

lemmas search_eval = heap_eval search_loop.simps relax_def get_neighbor_def is_collision_def
  init_search_def finish_def extract_path_def extract_loop.simps Let_def
  fresh_planner_def dirs4_def dirs8_def

lemma blocked_east_run:
  "\<exists>self'. Dijkstra_run blocked_east = Some (Inr self')
      \<and> PARENT self' (1, 0) = None \<and> g self' (1, 0) = Some PosInf
      \<and> finish (Dijkstra_run blocked_east) = Some (Inr ([(- 1, 0), (0, 0)], [(0, 0), (- 1, 0)]))"
  by (simp add: blocked_east_def Dijkstra_run_def Dijkstra_cost_def Dijkstra_prior_def
        get_terrain_cost_def search_eval split del: if_split)

theorem blocked_never_reached_witness:
  "\<exists>self'. Dijkstra_run blocked_east = Some (Inr self')
      \<and> PARENT self' (1, 0) = None \<and> (g self' (1, 0) = None \<or> g self' (1, 0) = Some PosInf)
      \<and> finish (Dijkstra_run blocked_east) = Some (Inr ([(- 1, 0), (0, 0)], [(0, 0), (- 1, 0)]))
      \<and> set [(- 1, 0), (0, 0)] \<inter> obs blocked_east = {}"
proof -
  obtain self' where run: "Dijkstra_run blocked_east = Some (Inr self')"
    and fin: "finish (Dijkstra_run blocked_east) = Some (Inr ([(- 1, 0), (0, 0)], [(0, 0), (- 1, 0)]))"
    using blocked_east_run by blast
  have f: "fresh blocked_east" by (simp add: fresh_def blocked_east_def fresh_planner_def)
  have m: "Dijkstra_run \<in> {AStar_run, Dijkstra_run, BFS_run}" by simp
  have o: "(1, 0) \<in> obs blocked_east \<and> (1, 0) \<noteq> s_start blocked_east"
    and s: "s_start blocked_east \<notin> obs blocked_east"
    by (simp_all add: blocked_east_def fresh_planner_def)
  note inst = blocked_never_reached [OF f m run]
  from inst o have "PARENT self' (1, 0) = None \<and> (g self' (1, 0) = None \<or> g self' (1, 0) = Some PosInf)"
    by blast
  moreover from inst s fin have "set [(- 1, 0), (0, 0)] \<inter> obs blocked_east = {}"
    by blast
  ultimately show ?thesis using run fin by blast
qed

section \<open>The returned path\<close>

lemma is_collision_config: "same_config self st \<Longrightarrow> is_collision st a b = is_collision self a b"
  by (simp add: is_collision_def same_config_def)

lemma get_neighbor_config: "same_config self st \<Longrightarrow> get_neighbor st s = get_neighbor self s"
  by (simp add: get_neighbor_def same_config_def)

lemma get_terrain_cost_config:
  "same_config self st \<Longrightarrow> get_terrain_cost st c = get_terrain_cost self c"
  by (simp add: get_terrain_cost_def same_config_def)

lemma get_terrain_cost_positive:
  assumes "terrain_positive self"
  shows "1 \<le> get_terrain_cost self c"
proof (cases "terrain_cost self c")
  case None
  then show ?thesis by (simp add: get_terrain_cost_def)
next
  case (Some v)
  with assms have "1 \<le> v" unfolding terrain_positive_def by blast
  with Some show ?thesis by (simp add: get_terrain_cost_def)
qed

lemma hypot_ge_1:
  assumes "dx \<noteq> 0 \<or> dy \<noteq> 0"
  shows "1 \<le> hypot dx dy"
proof -
  have "0 \<le> dx * dx" "0 \<le> dy * dy" by simp_all
  moreover have "0 < dx * dx \<or> 0 < dy * dy" using assms by (auto simp: zero_less_mult_iff)
  ultimately have "1 \<le> dx * dx + dy * dy" by linarith
  then have "1 \<le> real_of_int (dx * dx + dy * dy)" by linarith
  then show ?thesis unfolding hypot_def by simp
qed

lemma hypot_nonneg: "0 \<le> hypot dx dy"
  by (simp add: hypot_def)

lemma good_cost_AStar: "terrain_positive self \<Longrightarrow> good_cost AStar_cost self"
proof (unfold good_cost_def, intro allI impI)
  fix st a b c
  assume tp: "terrain_positive self" and cfg: "same_config self st" and c: "AStar_cost st a b = Fin c"
  let ?h = "hypot (fst b - fst a) (snd b - snd a)"
  let ?t = "float_of_int (get_terrain_cost self b)"
  from c have nc: "\<not> is_collision st a b" and val: "c = ?h * ?t"
    using get_terrain_cost_config [OF cfg] by (auto simp: AStar_cost_def split: if_splits)
  have t: "1 \<le> ?t" using get_terrain_cost_positive [OF tp, of b] by (rule float_of_int_ge_1)
  have "0 \<le> c" using val t hypot_nonneg [of "fst b - fst a" "snd b - snd a"] by simp
  moreover have "1 \<le> c" if "a \<noteq> b"
  proof -
    from that have "fst b - fst a \<noteq> 0 \<or> snd b - snd a \<noteq> 0" by (auto simp: prod_eq_iff)
    then have "1 \<le> ?h" by (rule hypot_ge_1)
    then have "1 * 1 \<le> ?h * ?t" using t by (intro mult_mono) auto
    then show ?thesis using val by simp
  qed
  ultimately show "\<not> is_collision self a b \<and> 0 \<le> c \<and> (a \<noteq> b \<longrightarrow> 1 \<le> c)"
    using nc is_collision_config [OF cfg] by simp
qed

lemma good_cost_Dijkstra: "terrain_positive self \<Longrightarrow> good_cost Dijkstra_cost self"
proof (unfold good_cost_def, intro allI impI)
  fix st a b c
  assume tp: "terrain_positive self" and cfg: "same_config self st" and c: "Dijkstra_cost st a b = Fin c"
  from c have nc: "\<not> is_collision st a b" and val: "c = real_of_int (get_terrain_cost self b)"
    using get_terrain_cost_config [OF cfg] by (auto simp: Dijkstra_cost_def split: if_splits)
  have "1 \<le> c" using val get_terrain_cost_positive [OF tp, of b] by linarith
  then show "\<not> is_collision self a b \<and> 0 \<le> c \<and> (a \<noteq> b \<longrightarrow> 1 \<le> c)"
    using nc is_collision_config [OF cfg] by simp
qed

lemma good_cost_BFS: "good_cost BFS_cost self"
  by (auto simp: good_cost_def BFS_cost_def is_collision_config split: if_splits)

lemma relax_result:
  assumes "relax cost prior st s s_n = Inr st'"
  shows "\<exists>gs. g st s = Some gs \<and>
     ((\<not> num_less (num_add gs (cost st s s_n)) (case g st s_n of Some v \<Rightarrow> v | None \<Rightarrow> PosInf)
        \<and> st' = st\<lparr>g := (if g st s_n = None then (g st)(s_n \<mapsto> PosInf) else g st)\<rparr>)
      \<or> (num_less (num_add gs (cost st s s_n)) (case g st s_n of Some v \<Rightarrow> v | None \<Rightarrow> PosInf)
        \<and> (\<exists>p. st' = st\<lparr>PARENT := (PARENT st)(s_n \<mapsto> s),
                          g := (g st)(s_n \<mapsto> num_add gs (cost st s s_n)),
                          OPEN := heappush (OPEN st) (p, s_n)\<rparr>)))"
proof -
  from assms obtain gs where gs: "g st s = Some gs"
    by (auto simp: relax_def split: option.splits)
  let ?g1 = "if g st s_n = None then (g st)(s_n \<mapsto> PosInf) else g st"
  have gn: "(case ?g1 s_n of Some gn \<Rightarrow> gn | None \<Rightarrow> PosInf)
            = (case g st s_n of Some v \<Rightarrow> v | None \<Rightarrow> PosInf)"
    by (auto split: option.splits)
  have upd: "?g1(s_n \<mapsto> x) = (g st)(s_n \<mapsto> x)" for x by auto
  show ?thesis
  proof (cases "num_less (num_add gs (cost st s s_n)) (case g st s_n of Some v \<Rightarrow> v | None \<Rightarrow> PosInf)")
    case True
    with assms gs gn upd show ?thesis
      by (auto simp: relax_def Let_def split: sum.splits)
  next
    case False
    with assms gs gn show ?thesis
      by (auto simp: relax_def Let_def)
  qed
qed

lemma num_less_add:
  assumes "num_less (num_add gs c) gn"
  shows "\<exists>a b. gs = Fin a \<and> c = Fin b \<and> (gn = PosInf \<or> (\<exists>v. gn = Fin v \<and> a + b < v))"
  using assms by (cases gs; cases c; cases gn) auto

lemma set_heappush: "set (heappush heap item) = insert item (set heap)"
  by (metis heappush_mset set_mset_add_mset_insert set_mset_mset)

lemma set_heappop:
  assumes "heappop heap = Inr r"
  shows "set heap = insert (fst r) (set (snd r))"
  by (metis heappop_mset [OF assms] set_mset_add_mset_insert set_mset_mset)

lemma linked_keep:
  assumes L: "linked self st"
  shows "linked self (st\<lparr>g := (if g st s_n = None then (g st)(s_n \<mapsto> PosInf) else g st)\<rparr>)"
proof (cases "g st s_n = None")
  case False
  then have "st\<lparr>g := (if g st s_n = None then (g st)(s_n \<mapsto> PosInf) else g st)\<rparr> = st"
    by auto
  then show ?thesis using L by simp
next
  case True
  have start: "s_n \<noteq> s_start self" using True L by (auto simp: linked_def)
  show ?thesis
    unfolding linked_def
  proof (intro conjI allI impI)
    show "same_config self (st\<lparr>g := (if g st s_n = None then (g st)(s_n \<mapsto> PosInf) else g st)\<rparr>)"
      using L by (simp add: linked_def same_config_def)
    show "g (st\<lparr>g := (if g st s_n = None then (g st)(s_n \<mapsto> PosInf) else g st)\<rparr>) (s_start self) = Some (Fin 0)"
      using L start by (simp add: linked_def)
    show "PARENT (st\<lparr>g := (if g st s_n = None then (g st)(s_n \<mapsto> PosInf) else g st)\<rparr>) (s_start self)
            = Some (s_start self)"
      using L by (simp add: linked_def)
  next
    fix x v
    assume "g (st\<lparr>g := (if g st s_n = None then (g st)(s_n \<mapsto> PosInf) else g st)\<rparr>) x = Some (Fin v)"
    then have "g st x = Some (Fin v)" using True by (auto split: if_splits)
    then have "0 \<le> v \<and> PARENT st x \<noteq> None" using L unfolding linked_def by blast
    then show "0 \<le> v" and "PARENT (st\<lparr>g := (if g st s_n = None then (g st)(s_n \<mapsto> PosInf) else g st)\<rparr>) x \<noteq> None"
      by simp_all
  next
    fix x p
    assume "PARENT (st\<lparr>g := (if g st s_n = None then (g st)(s_n \<mapsto> PosInf) else g st)\<rparr>) x = Some p
            \<and> x \<noteq> s_start self"
    then have xp: "PARENT st x = Some p \<and> x \<noteq> s_start self" by simp
    then have old: "(\<exists>gx gp. g st x = Some (Fin gx) \<and> g st p = Some (Fin gp) \<and> gp + 1 \<le> gx)
        \<and> x \<in> set (get_neighbor self p) \<and> \<not> is_collision self p x"
      using L unfolding linked_def by blast
    then obtain gx gp where "g st x = Some (Fin gx)" "g st p = Some (Fin gp)" "gp + 1 \<le> gx" by blast
    moreover from this True have "x \<noteq> s_n" "p \<noteq> s_n" by auto
    ultimately show "\<exists>gx gp. g (st\<lparr>g := (if g st s_n = None then (g st)(s_n \<mapsto> PosInf) else g st)\<rparr>) x = Some (Fin gx)
        \<and> g (st\<lparr>g := (if g st s_n = None then (g st)(s_n \<mapsto> PosInf) else g st)\<rparr>) p = Some (Fin gp)
        \<and> gp + 1 \<le> gx"
      using True by auto
    from old show "x \<in> set (get_neighbor self p)" and "\<not> is_collision self p x" by simp_all
  qed
qed

lemma linked_improve:
  assumes L: "linked self st" and gc: "good_cost cost self"
    and nb: "s_n \<in> set (get_neighbor st s)"
    and gs: "g st s = Some gs"
    and less: "num_less (num_add gs (cost st s s_n)) (case g st s_n of Some v \<Rightarrow> v | None \<Rightarrow> PosInf)"
  shows "linked self (st\<lparr>PARENT := (PARENT st)(s_n \<mapsto> s),
                          g := (g st)(s_n \<mapsto> num_add gs (cost st s s_n)),
                          OPEN := h\<rparr>)"
proof -
  let ?st' = "st\<lparr>PARENT := (PARENT st)(s_n \<mapsto> s),
                 g := (g st)(s_n \<mapsto> num_add gs (cost st s s_n)), OPEN := h\<rparr>"
  have cfg: "same_config self st" using L by (simp add: linked_def)
  from num_less_add [OF less] obtain a b where
    a: "gs = Fin a" and b: "cost st s s_n = Fin b"
    and old: "(case g st s_n of Some v \<Rightarrow> v | None \<Rightarrow> PosInf) = PosInf
              \<or> (\<exists>v. (case g st s_n of Some v \<Rightarrow> v | None \<Rightarrow> PosInf) = Fin v \<and> a + b < v)"
    by blast
  have a0: "0 \<le> a" using L gs a unfolding linked_def by blast
  from gc cfg b have nocoll: "\<not> is_collision self s s_n" and b0: "0 \<le> b"
    and b1: "s \<noteq> s_n \<longrightarrow> 1 \<le> b"
    unfolding good_cost_def by blast+
  have below: "a + b < v" if "g st s_n = Some (Fin v)" for v
    using old that by auto
  have ne: "s \<noteq> s_n"
  proof
    assume "s = s_n"
    with gs a have "g st s_n = Some (Fin a)" by simp
    from below [OF this] b0 show False by simp
  qed
  then have b1': "1 \<le> b" using b1 by simp
  have nstart: "s_n \<noteq> s_start self"
  proof
    assume "s_n = s_start self"
    then have "g st s_n = Some (Fin 0)" using L by (simp add: linked_def)
    from below [OF this] a0 b0 show False by simp
  qed
  have new: "num_add gs (cost st s s_n) = Fin (a + b)" using a b by simp
  show ?thesis
    unfolding linked_def
  proof (intro conjI allI impI)
    show "same_config self ?st'" using cfg by (simp add: same_config_def)
    show "g ?st' (s_start self) = Some (Fin 0)" using L nstart by (simp add: linked_def)
    show "PARENT ?st' (s_start self) = Some (s_start self)" using L nstart by (simp add: linked_def)
  next
    fix x v
    assume gx: "g ?st' x = Some (Fin v)"
    show "0 \<le> v"
    proof (cases "x = s_n")
      case True
      with gx new have "v = a + b" by simp
      then show ?thesis using a0 b0 by simp
    next
      case False
      with gx have "g st x = Some (Fin v)" by simp
      then show ?thesis using L unfolding linked_def by blast
    qed
    show "PARENT ?st' x \<noteq> None"
    proof (cases "x = s_n")
      case True
      then show ?thesis by simp
    next
      case False
      with gx have "g st x = Some (Fin v)" by simp
      then have "PARENT st x \<noteq> None" using L unfolding linked_def by blast
      then show ?thesis using False by simp
    qed
  next
    fix x p
    assume xp: "PARENT ?st' x = Some p \<and> x \<noteq> s_start self"
    have "(\<exists>gx gp. g ?st' x = Some (Fin gx) \<and> g ?st' p = Some (Fin gp) \<and> gp + 1 \<le> gx)
        \<and> x \<in> set (get_neighbor self p) \<and> \<not> is_collision self p x"
    proof (cases "x = s_n")
      case True
      with xp have p: "p = s" by simp
      have "g ?st' x = Some (Fin (a + b))" using True new by simp
      moreover have "g ?st' p = Some (Fin a)" using p ne gs a by simp
      moreover have "a + 1 \<le> a + b" using b1' by simp
      moreover have "x \<in> set (get_neighbor self p)"
        using nb True p get_neighbor_config [OF cfg] by simp
      ultimately show ?thesis using nocoll True p by blast
    next
      case False
      with xp have "PARENT st x = Some p \<and> x \<noteq> s_start self" by simp
      then have old: "(\<exists>gx gp. g st x = Some (Fin gx) \<and> g st p = Some (Fin gp) \<and> gp + 1 \<le> gx)
          \<and> x \<in> set (get_neighbor self p) \<and> \<not> is_collision self p x"
        using L unfolding linked_def by blast
      then obtain gx gp where gx: "g st x = Some (Fin gx)" and gp: "g st p = Some (Fin gp)"
        and le: "gp + 1 \<le> gx" by blast
      have "\<exists>gp'. g ?st' p = Some (Fin gp') \<and> gp' + 1 \<le> gx"
      proof (cases "p = s_n")
        case True
        then have "a + b < gp" using below gp by simp
        then show ?thesis using True new le by simp
      next
        case False
        then show ?thesis using gp le by simp
      qed
      moreover have "g ?st' x = Some (Fin gx)" using False gx by simp
      ultimately show ?thesis using old by blast
    qed
    then show "\<exists>gx gp. g ?st' x = Some (Fin gx) \<and> g ?st' p = Some (Fin gp) \<and> gp + 1 \<le> gx"
      and "x \<in> set (get_neighbor self p)" and "\<not> is_collision self p x" by blast+
  qed
qed

lemma relax_linked:
  assumes L: "linked self st \<and> discovered st" and gc: "good_cost cost self"
    and nb: "s_n \<in> set (get_neighbor st s)"
    and r: "relax cost prior st s s_n = Inr st'"
  shows "linked self st' \<and> discovered st'"
proof -
  from relax_result [OF r] obtain gs where gs: "g st s = Some gs"
    and cases: "(\<not> num_less (num_add gs (cost st s s_n)) (case g st s_n of Some v \<Rightarrow> v | None \<Rightarrow> PosInf)
        \<and> st' = st\<lparr>g := (if g st s_n = None then (g st)(s_n \<mapsto> PosInf) else g st)\<rparr>)
      \<or> (num_less (num_add gs (cost st s s_n)) (case g st s_n of Some v \<Rightarrow> v | None \<Rightarrow> PosInf)
        \<and> (\<exists>p. st' = st\<lparr>PARENT := (PARENT st)(s_n \<mapsto> s),
                          g := (g st)(s_n \<mapsto> num_add gs (cost st s s_n)),
                          OPEN := heappush (OPEN st) (p, s_n)\<rparr>))"
    by blast
  from cases show ?thesis
  proof
    assume "\<not> num_less (num_add gs (cost st s s_n)) (case g st s_n of Some v \<Rightarrow> v | None \<Rightarrow> PosInf)
        \<and> st' = st\<lparr>g := (if g st s_n = None then (g st)(s_n \<mapsto> PosInf) else g st)\<rparr>"
    then have eq: "st' = st\<lparr>g := (if g st s_n = None then (g st)(s_n \<mapsto> PosInf) else g st)\<rparr>" by simp
    have "linked self st'" unfolding eq using L linked_keep by blast
    moreover have "discovered st'" using L unfolding eq discovered_def by simp
    ultimately show ?thesis by simp
  next
    assume "num_less (num_add gs (cost st s s_n)) (case g st s_n of Some v \<Rightarrow> v | None \<Rightarrow> PosInf)
        \<and> (\<exists>p. st' = st\<lparr>PARENT := (PARENT st)(s_n \<mapsto> s),
                          g := (g st)(s_n \<mapsto> num_add gs (cost st s s_n)),
                          OPEN := heappush (OPEN st) (p, s_n)\<rparr>)"
    then obtain p where less: "num_less (num_add gs (cost st s s_n)) (case g st s_n of Some v \<Rightarrow> v | None \<Rightarrow> PosInf)"
      and eq: "st' = st\<lparr>PARENT := (PARENT st)(s_n \<mapsto> s),
                          g := (g st)(s_n \<mapsto> num_add gs (cost st s s_n)),
                          OPEN := heappush (OPEN st) (p, s_n)\<rparr>" by blast
    have "linked self st'" unfolding eq using linked_improve [OF _ gc nb gs less] L by blast
    moreover have "discovered st'"
      using L unfolding eq discovered_def by (auto simp: set_heappush)
    ultimately show ?thesis by simp
  qed
qed

lemma linked_pop [simp]: "linked self (st\<lparr>OPEN := a, CLOSED := b\<rparr>) = linked self st"
  by (simp add: linked_def same_config_def)

lemma search_loop_linked:
  assumes "search_loop cost prior st = Some (Inr st')"
    and "linked self st \<and> discovered st" and gc: "good_cost cost self"
  shows "linked self st' \<and> discovered st'"
proof (rule search_loop_rule [where I = "\<lambda>st. linked self st \<and> discovered st", OF assms(1,2)])
  fix st popped
  assume I: "linked self st \<and> discovered st" and "OPEN st \<noteq> []"
    and pop: "heappop (OPEN st) = Inr popped"
  let ?st' = "st\<lparr>OPEN := snd popped, CLOSED := CLOSED st @ [snd (fst popped)]\<rparr>"
  have "linked self ?st'" using I by simp
  moreover have "discovered ?st'"
  proof -
    from I have o: "\<And>e. e \<in> set (OPEN st) \<Longrightarrow> PARENT st (snd e) \<noteq> None"
      and c: "\<And>c. c \<in> set (CLOSED st) \<Longrightarrow> PARENT st c \<noteq> None"
      unfolding discovered_def by blast+
    have mem: "fst popped \<in> set (OPEN st)" and sub: "set (snd popped) \<subseteq> set (OPEN st)"
      using set_heappop [OF pop] by auto
    have "PARENT ?st' (snd e) \<noteq> None" if "e \<in> set (OPEN ?st')" for e
      using that sub o [of e] by auto
    moreover have "PARENT ?st' x \<noteq> None" if "x \<in> set (CLOSED ?st')" for x
    proof (cases "x \<in> set (CLOSED st)")
      case True
      then show ?thesis using c [of x] by simp
    next
      case False
      with that have "x = snd (fst popped)" by simp
      then show ?thesis using o [OF mem] by simp
    qed
    ultimately show ?thesis unfolding discovered_def by blast
  qed
  ultimately show "linked self ?st' \<and> discovered ?st'" by simp
next
  fix st s s_n st'
  assume "linked self st \<and> discovered st" and "s_n \<in> set (get_neighbor st s)"
    and "relax cost prior st s s_n = Inr st'"
  then show "linked self st' \<and> discovered st'" using relax_linked gc by blast
qed

lemma init_linked:
  assumes "fresh self" and "s_start self \<noteq> s_goal self"
  shows "linked self ((init_search self)\<lparr>OPEN := heappush (OPEN self) (f, s_start self)\<rparr>)
       \<and> discovered ((init_search self)\<lparr>OPEN := heappush (OPEN self) (f, s_start self)\<rparr>)"
  using assms
  by (auto simp: fresh_def linked_def discovered_def init_search_def same_config_def set_heappush)

lemma valid_moves_snoc:
  "valid_moves self (xs @ [a]) \<Longrightarrow> b \<in> set (get_neighbor self a) \<Longrightarrow> \<not> is_collision self a b
   \<Longrightarrow> valid_moves self (xs @ [a, b])"
proof (induction xs)
  case Nil
  then show ?case by simp
next
  case (Cons x xs)
  then show ?case by (cases xs) auto
qed

lemma extract_chain:
  assumes L: "linked self st"
  shows "g st x = Some (Fin gx) \<Longrightarrow> x \<noteq> s_start self \<Longrightarrow>
         \<exists>ch. extract_loop st (PARENT st) x acc = Some (Inr (acc @ ch))
            \<and> ch \<noteq> [] \<and> last ch = s_start self \<and> distinct (x # ch)
            \<and> valid_moves self (rev (x # ch))
            \<and> (\<forall>y. y \<in> set ch \<longrightarrow> (\<exists>gy. g st y = Some (Fin gy) \<and> gy + 1 \<le> gx))"
proof (induction "nat \<lfloor>gx\<rfloor>" arbitrary: x acc gx rule: less_induct)
  case less
  have start: "g st (s_start self) = Some (Fin 0)" using L by (simp add: linked_def)
  from L less.prems(1) have "PARENT st x \<noteq> None" unfolding linked_def by blast
  then obtain p where p: "PARENT st x = Some p" by blast
  with L less.prems(2) have link: "(\<exists>gx gp. g st x = Some (Fin gx) \<and> g st p = Some (Fin gp) \<and> gp + 1 \<le> gx)
      \<and> x \<in> set (get_neighbor self p) \<and> \<not> is_collision self p x"
    unfolding linked_def by blast
  with less.prems(1) obtain gp where gp: "g st p = Some (Fin gp)" and le: "gp + 1 \<le> gx"
    by auto
  have gp0: "0 \<le> gp" using L gp unfolding linked_def by blast
  have cfg: "s_start st = s_start self" using L by (simp add: linked_def same_config_def)
  show ?case
  proof (cases "p = s_start self")
    case True
    have "extract_loop st (PARENT st) x acc = Some (Inr (acc @ [p]))"
      using p True cfg by (subst extract_loop.simps) simp
    moreover have "distinct (x # [p])" using True less.prems(2) by simp
    moreover have "valid_moves self (rev (x # [p]))" using link by simp
    moreover have "\<forall>y. y \<in> set [p] \<longrightarrow> (\<exists>gy. g st y = Some (Fin gy) \<and> gy + 1 \<le> gx)"
      using gp le by simp
    ultimately show ?thesis using True by (intro exI [of _ "[p]"]) simp
  next
    case False
    have "nat \<lfloor>gp\<rfloor> < nat \<lfloor>gx\<rfloor>"
    proof -
      have "\<lfloor>gp\<rfloor> + 1 \<le> \<lfloor>gx\<rfloor>" using le by (metis floor_add_int floor_mono of_int_1)
      moreover have "0 \<le> \<lfloor>gp\<rfloor>" using gp0 by simp
      ultimately show ?thesis by linarith
    qed
    from less.hyps [OF this gp False, of "acc @ [p]"] obtain ch where
      ex: "extract_loop st (PARENT st) p (acc @ [p]) = Some (Inr ((acc @ [p]) @ ch))"
      and ne: "ch \<noteq> []" and last: "last ch = s_start self" and dist: "distinct (p # ch)"
      and vm: "valid_moves self (rev (p # ch))"
      and low: "\<forall>y. y \<in> set ch \<longrightarrow> (\<exists>gy. g st y = Some (Fin gy) \<and> gy + 1 \<le> gp)"
      by blast
    have "extract_loop st (PARENT st) x acc = Some (Inr (acc @ p # ch))"
      using p False ex cfg by (subst extract_loop.simps) simp
    moreover have "last (p # ch) = s_start self" using ne last by simp
    moreover have "distinct (x # p # ch)"
    proof -
      have "x \<noteq> p" using gp le less.prems(1) by auto
      moreover have "x \<notin> set ch"
      proof
        assume "x \<in> set ch"
        with low obtain gy where "g st x = Some (Fin gy)" "gy + 1 \<le> gp" by blast
        with less.prems(1) le show False by simp
      qed
      ultimately show ?thesis using dist by simp
    qed
    moreover have "valid_moves self (rev (x # p # ch))"
      using valid_moves_snoc [of self "rev ch" p x] vm link by simp
    moreover have "\<forall>y. y \<in> set (p # ch) \<longrightarrow> (\<exists>gy. g st y = Some (Fin gy) \<and> gy + 1 \<le> gx)"
    proof (intro allI impI)
      fix y assume "y \<in> set (p # ch)"
      then consider "y = p" | "y \<in> set ch" by auto
      then show "\<exists>gy. g st y = Some (Fin gy) \<and> gy + 1 \<le> gx"
      proof cases
        case 1
        then show ?thesis using gp le by simp
      next
        case 2
        with low obtain gy where "g st y = Some (Fin gy)" "gy + 1 \<le> gp" by blast
        then show ?thesis using le by auto
      qed
    qed
    ultimately show ?thesis by (intro exI [of _ "p # ch"]) simp
  qed
qed

section \<open>The bookkeeping of the depth-first loop\<close>

lemma DFS_visit_config:
  "DFS_visit st s s_n = Inr st' \<Longrightarrow>
     same_config (dfs_self st) (dfs_self st') \<and> CLOSED (dfs_self st') = CLOSED (dfs_self st)"
  by (auto simp: DFS_visit_def same_config_def split: if_splits option.splits)

lemma DFS_visit_all_rule:
  assumes "DFS_visit_all st s ns = Inr st'"
    and "I st"
    and "set ns \<subseteq> set (get_neighbor (dfs_self st) s)"
    and step: "\<And>st s_n st'. I st \<Longrightarrow> s_n \<in> set (get_neighbor (dfs_self st) s)
                \<Longrightarrow> DFS_visit st s s_n = Inr st' \<Longrightarrow> I st'"
  shows "I st'"
  using assms(1-3)
proof (induction ns arbitrary: st)
  case Nil
  then show ?case by simp
next
  case (Cons n ns)
  then obtain st1 where v: "DFS_visit st s n = Inr st1"
    and rest: "DFS_visit_all st1 s ns = Inr st'"
    by (auto split: sum.splits)
  have "I st1" using step [OF Cons.prems(2) _ v] Cons.prems(3) by simp
  moreover have "get_neighbor (dfs_self st1) s = get_neighbor (dfs_self st) s"
    using DFS_visit_config [OF v] by (simp add: same_config_def get_neighbor_def)
  ultimately show ?case using Cons.IH [OF rest] Cons.prems(3) by simp
qed

lemma DFS_loop_rule:
  assumes run: "DFS_loop st = Some (Inr st')"
    and init: "I st"
    and pop: "\<And>st. I st \<Longrightarrow> stack st \<noteq> [] \<Longrightarrow>
                I (st\<lparr>dfs_self := (dfs_self st)\<lparr>CLOSED := CLOSED (dfs_self st) @ [last (stack st)]\<rparr>,
                      stack := butlast (stack st)\<rparr>)"
    and step: "\<And>st s s_n st'. I st \<Longrightarrow> s_n \<in> set (get_neighbor (dfs_self st) s)
                \<Longrightarrow> DFS_visit st s s_n = Inr st' \<Longrightarrow> I st'"
  shows "I st'"
proof -
  have "\<forall>fin. (Inr st' :: error + dfs_state) = Inr fin \<longrightarrow> I st \<longrightarrow> I fin"
  proof (rule DFS_loop.raw_induct
      [where P = "\<lambda>s0 r. \<forall>fin. r = Inr fin \<longrightarrow> I s0 \<longrightarrow> I fin", OF _ run])
    fix loop s0 r
    assume IH: "\<And>s0 r. loop s0 = Some r \<Longrightarrow> \<forall>fin. r = Inr fin \<longrightarrow> I s0 \<longrightarrow> I fin"
      and body: "(if stack s0 = [] then Some (Inr s0)
        else if last (stack s0) = s_goal (dfs_self s0)
           then Some (Inr (s0\<lparr>dfs_self := (dfs_self s0)\<lparr>CLOSED := CLOSED (dfs_self s0) @ [last (stack s0)]\<rparr>,
                               stack := butlast (stack s0)\<rparr>))
           else case DFS_visit_all
                      (s0\<lparr>dfs_self := (dfs_self s0)\<lparr>CLOSED := CLOSED (dfs_self s0) @ [last (stack s0)]\<rparr>,
                          stack := butlast (stack s0)\<rparr>)
                      (last (stack s0)) (get_neighbor (dfs_self s0) (last (stack s0))) of
                Inl e \<Rightarrow> Some (Inl e) | Inr st' \<Rightarrow> loop st') = Some r"
    show "\<forall>fin. r = Inr fin \<longrightarrow> I s0 \<longrightarrow> I fin"
    proof (intro allI impI)
      fix fin
      assume r: "r = Inr fin" and I: "I s0"
      let ?mid = "s0\<lparr>dfs_self := (dfs_self s0)\<lparr>CLOSED := CLOSED (dfs_self s0) @ [last (stack s0)]\<rparr>,
                     stack := butlast (stack s0)\<rparr>"
      show "I fin"
      proof (cases "stack s0 = []")
        case True
        with body r I show ?thesis by simp
      next
        case False
        have mid: "I ?mid" using pop [OF I False] .
        show ?thesis
        proof (cases "last (stack s0) = s_goal (dfs_self s0)")
          case True
          with body r False mid show ?thesis by simp
        next
          case ng: False
          with body r False obtain st2 where
            va: "DFS_visit_all ?mid (last (stack s0)) (get_neighbor (dfs_self s0) (last (stack s0))) = Inr st2"
            and rec: "loop st2 = Some r"
            by (auto split: sum.splits)
          have "get_neighbor (dfs_self ?mid) (last (stack s0)) = get_neighbor (dfs_self s0) (last (stack s0))"
            by (simp add: get_neighbor_def)
          then have "I st2"
            using DFS_visit_all_rule [where I = I, OF va mid _ step] by simp
          with IH [OF rec] r show ?thesis by simp
        qed
      qed
    qed
  qed
  with init show ?thesis by blast
qed

lemma linked_closed [simp]: "linked self (st\<lparr>CLOSED := b\<rparr>) = linked self st"
  by (simp add: linked_def same_config_def)

lemma dfs_linked_start:
  assumes "fresh self"
  shows "dfs_linked self (DFS_start self)"
  using assms
  by (auto simp: dfs_linked_def linked_def fresh_def DFS_start_def same_config_def split: if_splits)

lemma dfs_linked_pop:
  assumes "dfs_linked self st" and "stack st \<noteq> []"
  shows "dfs_linked self
           (st\<lparr>dfs_self := (dfs_self st)\<lparr>CLOSED := CLOSED (dfs_self st) @ [last (stack st)]\<rparr>,
               stack := butlast (stack st)\<rparr>)"
proof -
  let ?st' = "st\<lparr>dfs_self := (dfs_self st)\<lparr>CLOSED := CLOSED (dfs_self st) @ [last (stack st)]\<rparr>,
                  stack := butlast (stack st)\<rparr>"
  from assms(1) have L: "linked self (dfs_self st)" and op: "OPEN (dfs_self st) = []"
    and V1: "\<forall>x. x \<in> visited st \<longleftrightarrow> PARENT (dfs_self st) x \<noteq> None"
    and V3: "\<forall>x n. g (dfs_self st) x = Some n \<longrightarrow> n \<noteq> PosInf"
    and V4: "\<forall>x p. PARENT (dfs_self st) x = Some p \<longrightarrow> p \<in> visited st"
    and V5: "set (stack st) \<subseteq> visited st" and V6: "set (CLOSED (dfs_self st)) \<subseteq> visited st"
    unfolding dfs_linked_def by blast+
  have top: "last (stack st) \<in> visited st" using V5 assms(2) last_in_set by blast
  have rest: "set (butlast (stack st)) \<subseteq> visited st"
    using V5 by (blast dest: in_set_butlastD)
  show ?thesis
    unfolding dfs_linked_def
  proof (intro conjI)
    show "linked self (dfs_self ?st')" using L by simp
    show "OPEN (dfs_self ?st') = []" using op by simp
    show "\<forall>x. x \<in> visited ?st' \<longleftrightarrow> PARENT (dfs_self ?st') x \<noteq> None" using V1 by simp
    show "\<forall>x n. g (dfs_self ?st') x = Some n \<longrightarrow> n \<noteq> PosInf" using V3 by simp
    show "\<forall>x p. PARENT (dfs_self ?st') x = Some p \<longrightarrow> p \<in> visited ?st'" using V4 by simp
    show "set (stack ?st') \<subseteq> visited ?st'" using rest by simp
    show "set (CLOSED (dfs_self ?st')) \<subseteq> visited ?st'" using V6 top by simp
  qed
qed

lemma dfs_linked_visit:
  assumes inv: "dfs_linked self st" and nb: "s_n \<in> set (get_neighbor (dfs_self st) s)"
    and v: "DFS_visit st s s_n = Inr st'"
  shows "dfs_linked self st'"
proof (cases "s_n \<notin> visited st \<and> \<not> is_collision (dfs_self st) s s_n")
  case False
  with v have "st' = st" by (auto simp: DFS_visit_def)
  with inv show ?thesis by simp
next
  case True
  let ?P = "PARENT (dfs_self st)" and ?g = "g (dfs_self st)"
  from inv have L: "linked self (dfs_self st)" and op: "OPEN (dfs_self st) = []"
    and V1: "\<And>x. x \<in> visited st \<longleftrightarrow> ?P x \<noteq> None"
    and V3: "\<And>x n. ?g x = Some n \<Longrightarrow> n \<noteq> PosInf"
    and V4: "\<And>x p. ?P x = Some p \<Longrightarrow> p \<in> visited st"
    and V5: "set (stack st) \<subseteq> visited st" and V6: "set (CLOSED (dfs_self st)) \<subseteq> visited st"
    unfolding dfs_linked_def by blast+
  from L have cfg: "same_config self (dfs_self st)"
    and g0: "?g (s_start self) = Some (Fin 0)"
    and p0: "?P (s_start self) = Some (s_start self)"
    and fin: "\<And>x w. ?g x = Some (Fin w) \<Longrightarrow> 0 \<le> w \<and> ?P x \<noteq> None"
    and link: "\<And>x p. ?P x = Some p \<Longrightarrow> x \<noteq> s_start self \<Longrightarrow>
                 (\<exists>gx gp. ?g x = Some (Fin gx) \<and> ?g p = Some (Fin gp) \<and> gp + 1 \<le> gx)
                 \<and> x \<in> set (get_neighbor self p) \<and> \<not> is_collision self p x"
    unfolding linked_def by blast+
  from True v obtain gs where gs: "?g s = Some gs"
    by (auto simp: DFS_visit_def split: option.splits)
  from V3 [OF gs] obtain w where w: "gs = Fin w" by (cases gs) simp_all
  from fin gs w have w0: "0 \<le> w" and ps: "?P s \<noteq> None" by blast+
  from ps V1 [of s] have sv: "s \<in> visited st" by blast
  from True have nv: "s_n \<notin> visited st" and nc: "\<not> is_collision (dfs_self st) s s_n" by simp_all
  from nv V1 [of s_n] have pn: "?P s_n = None" by blast
  from nv sv have ne: "s_n \<noteq> s" by auto
  from p0 V1 [of "s_start self"] nv have nst: "s_n \<noteq> s_start self" by auto
  let ?self' = "(dfs_self st)\<lparr>PARENT := ?P(s_n \<mapsto> s), g := ?g(s_n \<mapsto> Fin (w + 1))\<rparr>"
  from True v gs w have st': "st' = st\<lparr>dfs_self := ?self', stack := stack st @ [s_n],
                                        visited := insert s_n (visited st)\<rparr>"
    by (simp add: DFS_visit_def)
  have nb': "s_n \<in> set (get_neighbor self s)" using nb get_neighbor_config [OF cfg] by simp
  have nc': "\<not> is_collision self s s_n" using nc is_collision_config [OF cfg] by simp
  have "linked self ?self'"
    unfolding linked_def
  proof (intro conjI allI impI)
    show "same_config self ?self'" using cfg by (simp add: same_config_def)
    show "g ?self' (s_start self) = Some (Fin 0)" using g0 nst by simp
    show "PARENT ?self' (s_start self) = Some (s_start self)" using p0 nst by simp
  next
    fix x v
    assume "g ?self' x = Some (Fin v)"
    then show "0 \<le> v" using fin w0 by (cases "x = s_n") auto
  next
    fix x v
    assume "g ?self' x = Some (Fin v)"
    then show "PARENT ?self' x \<noteq> None" using fin by (cases "x = s_n") auto
  next
    fix x p
    assume a: "PARENT ?self' x = Some p \<and> x \<noteq> s_start self"
    show "\<exists>gx gp. g ?self' x = Some (Fin gx) \<and> g ?self' p = Some (Fin gp) \<and> gp + 1 \<le> gx"
    proof (cases "x = s_n")
      case True
      with a have "p = s" by simp
      then show ?thesis using True gs w ne by simp
    next
      case False
      with a have px: "?P x = Some p" by simp
      from V4 [OF px] nv have "p \<noteq> s_n" by blast
      with link [OF px] a False show ?thesis by simp
    qed
  next
    fix x p
    assume a: "PARENT ?self' x = Some p \<and> x \<noteq> s_start self"
    show "x \<in> set (get_neighbor self p)"
    proof (cases "x = s_n")
      case True
      with a have "p = s" by simp
      then show ?thesis using True nb' by simp
    next
      case False
      with a have px: "?P x = Some p" by simp
      with link [OF px] a show ?thesis by simp
    qed
  next
    fix x p
    assume a: "PARENT ?self' x = Some p \<and> x \<noteq> s_start self"
    show "\<not> is_collision self p x"
    proof (cases "x = s_n")
      case True
      with a have "p = s" by simp
      then show ?thesis using True nc' by simp
    next
      case False
      with a have px: "?P x = Some p" by simp
      with link [OF px] a show ?thesis by simp
    qed
  qed
  moreover have "\<forall>x. x \<in> insert s_n (visited st) \<longleftrightarrow> PARENT ?self' x \<noteq> None"
    using V1 by auto
  moreover have "\<forall>x n. g ?self' x = Some n \<longrightarrow> n \<noteq> PosInf"
    using V3 by auto
  moreover have "\<forall>x p. PARENT ?self' x = Some p \<longrightarrow> p \<in> insert s_n (visited st)"
    using V4 sv by (auto split: if_splits)
  moreover have "set (stack st @ [s_n]) \<subseteq> insert s_n (visited st)" using V5 by auto
  moreover have "set (CLOSED ?self') \<subseteq> insert s_n (visited st)" using V6 by auto
  moreover have "OPEN ?self' = []" using op by simp
  ultimately show ?thesis unfolding st' dfs_linked_def by simp
qed

lemma DFS_run_linked:
  assumes "fresh self" and "DFS_run self = Some (Inr self')"
  shows "linked self self' \<and> discovered self'"
proof -
  from assms(2) obtain st where run: "DFS_loop (DFS_start self) = Some (Inr st)"
    and self': "self' = dfs_self st"
    by (auto simp: DFS_run_def split: option.splits sum.splits)
  have "dfs_linked self st"
    by (rule DFS_loop_rule [where I = "dfs_linked self", OF run])
       (auto intro: dfs_linked_start [OF assms(1)] dfs_linked_pop dfs_linked_visit)
  then show ?thesis unfolding self' dfs_linked_def discovered_def by auto
qed

section \<open>The returned path of the four variants\<close>

lemma run_linked:
  assumes "fresh self" and "terrain_positive self" and "s_start self \<noteq> s_goal self"
    and "run \<in> {AStar_run, Dijkstra_run, BFS_run, DFS_run}" and "run self = Some (Inr self')"
  shows "linked self self' \<and> discovered self'"
proof -
  note init = init_linked [OF assms(1,3)]
  consider (a) "run = AStar_run" | (d) "run = Dijkstra_run" | (b) "run = BFS_run"
    | (dfs) "run = DFS_run"
    using assms(4) by auto
  then show ?thesis
  proof cases
    case dfs
    with assms(5) show ?thesis using DFS_run_linked [OF assms(1)] by simp
  next
    case a
    with assms(5) obtain f where
      "search_loop AStar_cost AStar_prior ((init_search self)\<lparr>OPEN := heappush (OPEN self) (f, s_start self)\<rparr>)
         = Some (Inr self')"
      by (auto simp: AStar_run_def split: sum.splits)
    then show ?thesis
      using search_loop_linked init good_cost_AStar [OF assms(2)] by blast
  next
    case d
    with assms(5) show ?thesis
      using search_loop_linked init good_cost_Dijkstra [OF assms(2)]
      unfolding Dijkstra_run_def by blast
  next
    case b
    with assms(5) show ?thesis
      using search_loop_linked init good_cost_BFS
      unfolding BFS_run_def by blast
  qed
qed

lemma linked_path:
  assumes L: "linked self st" and D: "discovered st"
    and ne: "s_start self \<noteq> s_goal self" and fin: "s_goal self \<in> set (CLOSED st)"
  shows "\<exists>path. extract_path st (PARENT st) = Some (Inr path)
          \<and> hd (rev path) = s_start self \<and> last (rev path) = s_goal self
          \<and> distinct path \<and> valid_moves self (rev path)"
proof -
  have goal: "s_goal st = s_goal self" using L by (simp add: linked_def same_config_def)
  from D fin obtain p where "PARENT st (s_goal self) = Some p" unfolding discovered_def by blast
  with L ne obtain gx where gx: "g st (s_goal self) = Some (Fin gx)"
    unfolding linked_def by metis
  from extract_chain [OF L gx, of "[s_goal self]"] ne obtain ch where
    ex: "extract_loop st (PARENT st) (s_goal self) [s_goal self] = Some (Inr ([s_goal self] @ ch))"
    and ch: "ch \<noteq> []" and last: "last ch = s_start self" and dist: "distinct (s_goal self # ch)"
    and vm: "valid_moves self (rev (s_goal self # ch))"
    by metis
  have "extract_path st (PARENT st) = Some (Inr (s_goal self # ch))"
    using ex goal by (simp add: extract_path_def)
  moreover have "hd (rev (s_goal self # ch)) = s_start self"
    using ch last by (simp add: hd_append hd_rev)
  moreover have "last (rev (s_goal self # ch)) = s_goal self" by simp
  ultimately show ?thesis using dist vm by blast
qed

text \<open>
  C8, for a search whose start and goal differ: when the loop of any of the four variants
  (A*, Dijkstra, breadth-first, depth-first) has finalized the goal, on a planner as its
  constructor leaves it (nothing searched yet, the multipliers positive integers), the
  path extractor returns a path which, reversed, starts at the start, ends at the goal,
  has no duplicate and moves only by free moves of the topology.
\<close>

theorem path_round_trip:
  assumes "fresh self" and "terrain_positive self" and "s_start self \<noteq> s_goal self"
    and "run \<in> {AStar_run, Dijkstra_run, BFS_run, DFS_run}" and "run self = Some (Inr self')"
    and "s_goal self \<in> set (CLOSED self')"
  shows "\<exists>path. finish (run self) = Some (Inr (path, CLOSED self'))
          \<and> hd (rev path) = s_start self \<and> last (rev path) = s_goal self
          \<and> distinct path \<and> valid_moves self (rev path)"
proof -
  from run_linked [OF assms(1-5)] have L: "linked self self'" and D: "discovered self'" by simp_all
  from linked_path [OF L D assms(3,6)] obtain path where
    "extract_path self' (PARENT self') = Some (Inr path)"
    and props: "hd (rev path) = s_start self \<and> last (rev path) = s_goal self
          \<and> distinct path \<and> valid_moves self (rev path)" by blast
  then have "finish (run self) = Some (Inr (path, CLOSED self'))"
    using assms(5) by (simp add: finish_def)
  with props show ?thesis by blast
qed

lemma corridor_run:
  "\<exists>self'. BFS_run corridor = Some (Inr self') \<and> s_goal corridor \<in> set (CLOSED self')
     \<and> finish (BFS_run corridor)
         = Some (Inr ([(2, 0), (2, 1), (1, 1), (0, 1), (0, 0)], [(0, 0), (0, 1), (1, 1), (2, 1), (2, 0)]))"
  by (simp add: corridor_def BFS_run_def BFS_cost_def BFS_prior_def search_eval split del: if_split)

lemma corridor_dfs_run:
  "\<exists>self'. DFS_run corridor = Some (Inr self') \<and> s_goal corridor \<in> set (CLOSED self')
     \<and> finish (DFS_run corridor)
         = Some (Inr ([(2, 0), (2, 1), (1, 1), (0, 1), (0, 0)], [(0, 0), (0, 1), (1, 1), (2, 1), (2, 0)]))"
  by (simp add: corridor_def DFS_loop.simps DFS_visit_def DFS_start_def DFS_run_def search_eval
        split del: if_split)

theorem path_round_trip_witness:
  "finish (BFS_run corridor)
     = Some (Inr ([(2, 0), (2, 1), (1, 1), (0, 1), (0, 0)], [(0, 0), (0, 1), (1, 1), (2, 1), (2, 0)]))
   \<and> finish (DFS_run corridor)
     = Some (Inr ([(2, 0), (2, 1), (1, 1), (0, 1), (0, 0)], [(0, 0), (0, 1), (1, 1), (2, 1), (2, 0)]))
   \<and> hd (rev [(2, 0), (2, 1), (1, 1), (0, 1), (0, 0)]) = s_start corridor
   \<and> last (rev [(2, 0), (2, 1), (1, 1), (0, 1), (0, 0)]) = s_goal corridor
   \<and> distinct ([(2, 0), (2, 1), (1, 1), (0, 1), (0, 0)] :: coord list)
   \<and> valid_moves corridor (rev [(2, 0), (2, 1), (1, 1), (0, 1), (0, 0)])"
proof -
  obtain self' where run: "BFS_run corridor = Some (Inr self')"
    and goal: "s_goal corridor \<in> set (CLOSED self')"
    and fin: "finish (BFS_run corridor)
         = Some (Inr ([(2, 0), (2, 1), (1, 1), (0, 1), (0, 0)], [(0, 0), (0, 1), (1, 1), (2, 1), (2, 0)]))"
    using corridor_run by blast
  obtain dfs' where drun: "DFS_run corridor = Some (Inr dfs')"
    and dgoal: "s_goal corridor \<in> set (CLOSED dfs')"
    and dfin: "finish (DFS_run corridor)
         = Some (Inr ([(2, 0), (2, 1), (1, 1), (0, 1), (0, 0)], [(0, 0), (0, 1), (1, 1), (2, 1), (2, 0)]))"
    using corridor_dfs_run by blast
  have f: "fresh corridor" by (simp add: fresh_def corridor_def fresh_planner_def)
  have t: "terrain_positive corridor" by (simp add: terrain_positive_def corridor_def fresh_planner_def)
  have n: "s_start corridor \<noteq> s_goal corridor" by (simp add: corridor_def fresh_planner_def)
  have m: "BFS_run \<in> {AStar_run, Dijkstra_run, BFS_run, DFS_run}" by simp
  have d: "DFS_run \<in> {AStar_run, Dijkstra_run, BFS_run, DFS_run}" by simp
  from path_round_trip [OF f t n m run goal] obtain path where
    p: "finish (BFS_run corridor) = Some (Inr (path, CLOSED self'))"
    and props: "hd (rev path) = s_start corridor \<and> last (rev path) = s_goal corridor
          \<and> distinct path \<and> valid_moves corridor (rev path)" by blast
  from path_round_trip [OF f t n d drun dgoal] obtain dpath where
    dp: "finish (DFS_run corridor) = Some (Inr (dpath, CLOSED dfs'))"
    and dprops: "hd (rev dpath) = s_start corridor \<and> last (rev dpath) = s_goal corridor
          \<and> distinct dpath \<and> valid_moves corridor (rev dpath)" by blast
  from p fin have "path = [(2, 0), (2, 1), (1, 1), (0, 1), (0, 0)]" by simp
  moreover from dp dfin have "dpath = [(2, 0), (2, 1), (1, 1), (0, 1), (0, 0)]" by simp
  ultimately show ?thesis using props dprops fin dfin by blast
qed

text \<open>
  With start equal to goal the search succeeds and returns the start twice: a path with a
  duplicate whose one step is not a move.
\<close>

theorem trivial_search_counterexample:
  "finish (AStar_run trivial_search) = Some (Inr ([(0, 0), (0, 0)], [(0, 0)]))
   \<and> s_goal trivial_search \<in> set [(0, 0)]
   \<and> \<not> distinct ([(0, 0), (0, 0)] :: coord list)
   \<and> \<not> valid_moves trivial_search (rev [(0, 0), (0, 0)])"
  by (simp add: trivial_search_def AStar_run_def AStar_cost_def AStar_prior_def f_value_def
        search_eval split del: if_split)

section \<open>Weight 0 on four moves is the Dijkstra variant\<close>



lemma num_add_zero [simp]: "num_add x (Fin 0) = x"
  by (cases x) simp_all







subsection \<open>The costs stay in the range of exact float arithmetic\<close>


declare trail.simps(3) [simp del]








lemma tracked_pop [simp]:
  "tracked self region (st\<lparr>OPEN := a, CLOSED := b\<rparr>) = tracked self region st"
  by (simp add: tracked_def same_config_def)




subsection \<open>The two runs coincide\<close>






section \<open>No entry is discarded\<close>

lemma sqrt2_bounds: "7 / 5 < sqrt 2" "sqrt 2 < 3 / 2"
proof -
  show "7 / 5 < sqrt 2" by (rule real_less_rsqrt) (simp add: power2_eq_square)
  show "sqrt 2 < 3 / 2" by (rule real_less_lsqrt) (simp_all add: power2_eq_square)
qed

lemma hypot_eval:
  "hypot 0 0 = 0" "hypot 1 0 = 1" "hypot (- 1) 0 = 1" "hypot 0 1 = 1" "hypot 0 (- 1) = 1"
  "hypot 1 1 = sqrt 2" "hypot 1 (- 1) = sqrt 2" "hypot (- 1) 1 = sqrt 2" "hypot (- 1) (- 1) = sqrt 2"
  by (simp_all add: hypot_def)

lemma relax_pending:
  assumes "relax cost prior st s s_n = Inr st'"
  shows "pending st \<subseteq># pending st'"
proof -
  from relax_result [OF assms] have "OPEN st' = OPEN st \<or> (\<exists>p. OPEN st' = heappush (OPEN st) (p, s_n))"
    by auto
  moreover have "CLOSED st' = CLOSED st" using relax_config [OF assms] by simp
  ultimately show ?thesis by (auto simp: pending_def heappush_mset)
qed

lemma pop_pending:
  assumes "heappop (OPEN st) = Inr popped"
  shows "pending (st\<lparr>OPEN := snd popped, CLOSED := CLOSED st @ [snd (fst popped)]\<rparr>) = pending st"
proof -
  have "mset (map snd (OPEN st)) = image_mset snd (mset (OPEN st))" by simp
  also have "\<dots> = add_mset (snd (fst popped)) (image_mset snd (mset (snd popped)))"
    using heappop_mset [OF assms] by simp
  finally show ?thesis by (simp add: pending_def)
qed

text \<open>
  C2, as the code has it: the loop has no test for stale entries. Whatever the cost and
  priority, every entry that has been in the open list is, when the loop is left, still
  queued or accounted for by one occurrence of its coordinate in the closed list.
\<close>

theorem popped_entries_are_finalized:
  assumes "search_loop cost prior st = Some (Inr st')"
  shows "pending st \<subseteq># pending st'"
proof (rule search_loop_rule [where I = "\<lambda>x. pending st \<subseteq># pending x", OF assms])
  show "pending st \<subseteq># pending st" by simp
next
  fix x popped
  assume "pending st \<subseteq># pending x" and "heappop (OPEN x) = Inr popped"
  then show "pending st \<subseteq># pending (x\<lparr>OPEN := snd popped, CLOSED := CLOSED x @ [snd (fst popped)]\<rparr>)"
    using pop_pending by simp
next
  fix x s s_n x'
  assume "pending st \<subseteq># pending x" and "relax cost prior x s s_n = Inr x'"
  then show "pending st \<subseteq># pending x'"
    using relax_pending by (meson subset_mset.order_trans)
qed

lemma stale_pop_run:
  "finish (AStar_run stale_pop)
     = Some (Inr ([(2, 1), (1, 1), (0, 1), (0, 0)], [(0, 0), (0, 1), (1, 0), (1, 1), (1, 1), (2, 1)]))"
  using sqrt2_bounds
  by (simp add: stale_pop_def AStar_run_def AStar_cost_def AStar_prior_def f_value_def
        get_terrain_cost_def float_of_int_small search_eval hypot_eval split del: if_split)

text \<open>
  The claim as stated fails: \<open>(1, 1)\<close> is pushed with priority \<open>5 * sqrt 2\<close> from the
  start and again with priority 6 from \<open>(0, 1)\<close>; both entries are popped and appended.
\<close>

theorem stale_pop_counterexample:
  "AStar_searching stale_pop
     = Some (Inr ([(2, 1), (1, 1), (0, 1), (0, 0)], [(0, 0), (0, 1), (1, 0), (1, 1), (1, 1), (2, 1)]))
   \<and> \<not> distinct ([(0, 0), (0, 1), (1, 0), (1, 1), (1, 1), (2, 1)] :: coord list)"
  using stale_pop_run by (simp add: AStar_searching_def)

lemma stale_pop_loop:
  "\<exists>st'. search_loop AStar_cost AStar_prior stale_pop_begin = Some (Inr st')
      \<and> OPEN st' = [] \<and> CLOSED st' = [(0, 0), (0, 1), (1, 0), (1, 1), (1, 1), (2, 1)]"
  using sqrt2_bounds
  by (simp add: stale_pop_begin_def stale_pop_def AStar_cost_def AStar_prior_def f_value_def
        get_terrain_cost_def float_of_int_small search_eval hypot_eval split del: if_split)

theorem popped_entries_are_finalized_witness:
  "\<exists>st'. search_loop AStar_cost AStar_prior stale_pop_begin = Some (Inr st')
      \<and> pending stale_pop_begin \<subseteq># pending st'
      \<and> pending st' = mset [(0, 0), (0, 1), (1, 0), (1, 1), (1, 1), (2, 1)]"
proof -
  from stale_pop_loop obtain st' where
    run: "search_loop AStar_cost AStar_prior stale_pop_begin = Some (Inr st')"
    and fin: "OPEN st' = []" "CLOSED st' = [(0, 0), (0, 1), (1, 0), (1, 1), (1, 1), (2, 1)]"
    by blast
  from popped_entries_are_finalized [OF run] fin run show ?thesis
    by (auto simp: pending_def)
qed

section \<open>Two runs that break their claims\<close>

text \<open>
  C6: on the open grid the breadth-first variant finalizes \<open>(5, 7)\<close>, two steps from the
  start, before \<open>(6, 5)\<close>, one step from it; the cost-to-come along the closed list is
  0, 1, 1, 1, 2, 1. The priority \<open>OPEN[-1][0] + 1\<close> is read from the last cell of the
  heap array, which does not hold the largest priority.
\<close>

theorem bfs_layering_broken:
  "\<exists>st'. BFS_run open_grid = Some (Inr st')
     \<and> CLOSED st' = [(5, 5), (5, 6), (5, 4), (4, 5), (5, 7), (6, 5)]
     \<and> map (g st') (CLOSED st')
         = [Some (Fin 0), Some (Fin 1), Some (Fin 1), Some (Fin 1), Some (Fin 2), Some (Fin 1)]
     \<and> BFS_searching open_grid
         = Some (Inr ([(6, 5), (5, 5)], [(5, 5), (5, 6), (5, 4), (4, 5), (5, 7), (6, 5)]))"
  by (simp add: open_grid_def BFS_searching_def BFS_run_def BFS_cost_def BFS_prior_def search_eval
        split del: if_split)

text \<open>
  C3: when the open list empties before the goal is reached, \<open>searching\<close> does not
  return: \<open>extract_path\<close> reads \<open>PARENT[s_goal]\<close>, which was never written, and the
  \<open>KeyError\<close> leaves the call.
\<close>

theorem unreachable_goal_raises:
  "AStar_searching enclosed = Some (Inl KeyError)
   \<and> Dijkstra_searching (enclosed\<lparr>u_set := dirs4\<rparr>) = Some (Inl KeyError)
   \<and> BFS_searching (enclosed\<lparr>u_set := dirs4\<rparr>) = Some (Inl KeyError)
   \<and> (\<exists>st'. AStar_run enclosed = Some (Inr st') \<and> OPEN st' = [] \<and> CLOSED st' = [(0, 0)]
          \<and> PARENT st' (s_goal enclosed) = None)"
  by (simp add: enclosed_def AStar_searching_def AStar_run_def AStar_cost_def AStar_prior_def f_value_def
        Dijkstra_searching_def Dijkstra_run_def Dijkstra_cost_def Dijkstra_prior_def
        BFS_searching_def BFS_run_def BFS_cost_def BFS_prior_def
        search_eval split del: if_split)

section \<open>Depth-first search pushes a coordinate once\<close>

lemma pushed_once_pop:
  assumes "pushed_once st" and "stack st \<noteq> []"
  shows "pushed_once (st\<lparr>dfs_self := (dfs_self st)\<lparr>CLOSED := CLOSED (dfs_self st) @ [last (stack st)]\<rparr>,
                        stack := butlast (stack st)\<rparr>)"
proof -
  have split: "stack st = butlast (stack st) @ [last (stack st)]" using assms(2) by simp
  have "distinct (CLOSED (dfs_self st) @ butlast (stack st) @ [last (stack st)])"
    and "visited st = set (CLOSED (dfs_self st) @ butlast (stack st) @ [last (stack st)])"
    using assms(1) split unfolding pushed_once_def by metis+
  then show ?thesis by (auto simp: pushed_once_def)
qed

lemma pushed_once_visit:
  assumes "pushed_once st" and "DFS_visit st s s_n = Inr st'"
  shows "pushed_once st'"
  using assms
  by (auto simp: pushed_once_def DFS_visit_def split: if_splits option.splits)

text \<open>
  C10: when the depth-first loop on a planner with an empty closed list is left, the
  closed list followed by the stack has no duplicate and holds exactly the visited
  coordinates; so no coordinate was pushed twice, and a returned closed trace has no
  duplicate.
\<close>

theorem dfs_pushes_once:
  assumes "CLOSED self = []" and "DFS_loop (DFS_start self) = Some (Inr st)"
  shows "distinct (CLOSED (dfs_self st) @ stack st)
       \<and> visited st = set (CLOSED (dfs_self st) @ stack st)
       \<and> (\<forall>path closed. DFS_searching self = Some (Inr (path, closed)) \<longrightarrow>
             closed = CLOSED (dfs_self st) \<and> distinct closed)"
proof -
  have "pushed_once (DFS_start self)"
    using assms(1) by (simp add: pushed_once_def DFS_start_def)
  then have p: "pushed_once st"
    by (rule DFS_loop_rule [where I = pushed_once, OF assms(2)])
       (auto intro: pushed_once_pop pushed_once_visit)
  have "closed = CLOSED (dfs_self st) \<and> distinct closed"
    if "DFS_searching self = Some (Inr (path, closed))" for path closed
  proof -
    from that assms(2) have "closed = CLOSED (dfs_self st)"
      by (auto simp: DFS_searching_def DFS_run_def finish_def split: option.splits sum.splits)
    then show ?thesis using p by (simp add: pushed_once_def)
  qed
  with p show ?thesis unfolding pushed_once_def by blast
qed

lemmas dfs_eval = DFS_loop.simps DFS_visit_def DFS_start_def DFS_run_def DFS_searching_def

lemma corridor_dfs:
  "\<exists>st. DFS_loop (DFS_start corridor) = Some (Inr st)
     \<and> DFS_searching corridor
         = Some (Inr ([(2, 0), (2, 1), (1, 1), (0, 1), (0, 0)], [(0, 0), (0, 1), (1, 1), (2, 1), (2, 0)]))"
  by (simp add: corridor_def dfs_eval search_eval split del: if_split)

theorem dfs_pushes_once_witness:
  "DFS_searching corridor
     = Some (Inr ([(2, 0), (2, 1), (1, 1), (0, 1), (0, 0)], [(0, 0), (0, 1), (1, 1), (2, 1), (2, 0)]))
   \<and> distinct ([(0, 0), (0, 1), (1, 1), (2, 1), (2, 0)] :: coord list)"
proof -
  from corridor_dfs obtain st where run: "DFS_loop (DFS_start corridor) = Some (Inr st)"
    and res: "DFS_searching corridor
         = Some (Inr ([(2, 0), (2, 1), (1, 1), (0, 1), (0, 0)], [(0, 0), (0, 1), (1, 1), (2, 1), (2, 0)]))"
    by blast
  have c: "CLOSED corridor = []" by (simp add: corridor_def fresh_planner_def)
  from dfs_pushes_once [OF c run] res show ?thesis by blast
qed

section \<open>The overlay is reproducible\<close>

lemma overlay_input_eq:
  "overlay_input st1 = overlay_input st2 \<longleftrightarrow>
     s_start (fst st1) = s_start (fst st2) \<and> s_goal (fst st1) = s_goal (fst st2)
     \<and> obs (fst st1) = obs (fst st2) \<and> terrain_cost (fst st1) = terrain_cost (fst st2)
     \<and> terrain_colors (fst st1) = terrain_colors (fst st2) \<and> snd st1 = snd st2"
  by (auto simp: overlay_input_def)

lemma set_ring_node_input:
  assumes "overlay_input st1 = overlay_input st2"
  shows "overlay_input (set_ring_node below center distance st1 d)
       = overlay_input (set_ring_node below center distance st2 d)"
  using assms unfolding overlay_input_eq set_ring_node_def by simp

lemma foldl_input:
  assumes step: "\<And>st1 st2 x. overlay_input st1 = overlay_input st2
                   \<Longrightarrow> overlay_input (f st1 x) = overlay_input (f st2 x)"
  shows "overlay_input st1 = overlay_input st2
         \<Longrightarrow> overlay_input (foldl f st1 xs) = overlay_input (foldl f st2 xs)"
proof (induction xs arbitrary: st1 st2)
  case Nil
  then show ?case by simp
next
  case (Cons x xs)
  have "overlay_input (f st1 x) = overlay_input (f st2 x)" using Cons.prems by (rule step)
  then have "overlay_input (foldl f (f st1 x) xs) = overlay_input (foldl f (f st2 x) xs)"
    by (rule Cons.IH)
  then show ?case by simp
qed

lemma set_surrounding_costs_input:
  assumes "overlay_input st1 = overlay_input st2"
  shows "overlay_input (set_surrounding_costs below st1 center distance)
       = overlay_input (set_surrounding_costs below st2 center distance)"
  unfolding set_surrounding_costs_def
  by (rule foldl_input [OF _ assms]) (rule set_ring_node_input)

lemma place_terrain_stop:
  assumes "\<not> (placed < cnt \<and> attempts < 1000)"
  shows "place_terrain below cost_value color cnt placed attempts st = st"
proof -
  from assms have c: "(placed < cnt \<and> attempts < 1000) = False" by blast
  show ?thesis by (subst place_terrain.simps) (simp only: c if_False)
qed

lemma place_terrain_keep:
  assumes "placed < cnt \<and> attempts < 1000"
    and "terrain_cost (fst st) (fst (draw_node below (snd st))) = None
         \<and> fst (draw_node below (snd st)) \<noteq> s_start (fst st)
         \<and> fst (draw_node below (snd st)) \<noteq> s_goal (fst st)
         \<and> fst (draw_node below (snd st)) \<notin> obs (fst st)"
  shows "place_terrain below cost_value color cnt placed attempts st
       = place_terrain below cost_value color cnt (placed + 1) (attempts + 1)
           ((fst st)\<lparr>terrain_cost := (terrain_cost (fst st))
                               (fst (draw_node below (snd st)) \<mapsto> cost_value),
                      terrain_colors := (terrain_colors (fst st))
                               (fst (draw_node below (snd st)) \<mapsto> color)\<rparr>,
            snd (draw_node below (snd st)))"
proof -
  from assms(1) have c: "(placed < cnt \<and> attempts < 1000) = True" by blast
  from assms(2) have d: "(terrain_cost (fst st) (fst (draw_node below (snd st))) = None
         \<and> fst (draw_node below (snd st)) \<noteq> s_start (fst st)
         \<and> fst (draw_node below (snd st)) \<noteq> s_goal (fst st)
         \<and> fst (draw_node below (snd st)) \<notin> obs (fst st)) = True" by blast
  show ?thesis by (subst place_terrain.simps) (simp only: c d if_True)
qed

lemma place_terrain_skip:
  assumes "placed < cnt \<and> attempts < 1000"
    and "\<not> (terrain_cost (fst st) (fst (draw_node below (snd st))) = None
           \<and> fst (draw_node below (snd st)) \<noteq> s_start (fst st)
           \<and> fst (draw_node below (snd st)) \<noteq> s_goal (fst st)
           \<and> fst (draw_node below (snd st)) \<notin> obs (fst st))"
  shows "place_terrain below cost_value color cnt placed attempts st
       = place_terrain below cost_value color cnt placed (attempts + 1)
           (fst st, snd (draw_node below (snd st)))"
proof -
  from assms(1) have c: "(placed < cnt \<and> attempts < 1000) = True" by blast
  from assms(2) have d: "(terrain_cost (fst st) (fst (draw_node below (snd st))) = None
         \<and> fst (draw_node below (snd st)) \<noteq> s_start (fst st)
         \<and> fst (draw_node below (snd st)) \<noteq> s_goal (fst st)
         \<and> fst (draw_node below (snd st)) \<notin> obs (fst st)) = False" by blast
  show ?thesis by (subst place_terrain.simps) (simp only: c d if_True if_False)
qed

lemma place_terrain_input:
  "overlay_input st1 = overlay_input st2 \<Longrightarrow>
   overlay_input (place_terrain below cost_value color cnt placed attempts st1)
   = overlay_input (place_terrain below cost_value color cnt placed attempts st2)"
proof (induction below cost_value color cnt placed attempts st1 arbitrary: st2 rule: place_terrain.induct)
  case (1 below cost_value color cnt placed attempts st)
  let ?node = "fst (draw_node below (snd st))"
  let ?r = "snd (draw_node below (snd st))"
  from "1.prems" have eq: "s_start (fst st2) = s_start (fst st)" "s_goal (fst st2) = s_goal (fst st)"
    "obs (fst st2) = obs (fst st)" "terrain_cost (fst st2) = terrain_cost (fst st)"
    "terrain_colors (fst st2) = terrain_colors (fst st)" "snd st2 = snd st"
    by (simp_all add: overlay_input_eq)
  show ?case
  proof (cases "placed < cnt \<and> attempts < 1000")
    case False
    then show ?thesis using "1.prems" by (simp only: place_terrain_stop [OF False])
  next
    case True
    show ?thesis
    proof (cases "terrain_cost (fst st) ?node = None \<and> ?node \<noteq> s_start (fst st)
                  \<and> ?node \<noteq> s_goal (fst st) \<and> ?node \<notin> obs (fst st)")
      case free: True
      let ?n1 = "((fst st)\<lparr>terrain_cost := (terrain_cost (fst st))(?node \<mapsto> cost_value),
                          terrain_colors := (terrain_colors (fst st))(?node \<mapsto> color)\<rparr>, ?r)"
      let ?n2 = "((fst st2)\<lparr>terrain_cost := (terrain_cost (fst st2))
                               (fst (draw_node below (snd st2)) \<mapsto> cost_value),
                          terrain_colors := (terrain_colors (fst st2))
                               (fst (draw_node below (snd st2)) \<mapsto> color)\<rparr>,
                 snd (draw_node below (snd st2)))"
      have free2: "terrain_cost (fst st2) (fst (draw_node below (snd st2))) = None
         \<and> fst (draw_node below (snd st2)) \<noteq> s_start (fst st2)
         \<and> fst (draw_node below (snd st2)) \<noteq> s_goal (fst st2)
         \<and> fst (draw_node below (snd st2)) \<notin> obs (fst st2)"
        using free by (simp add: eq)
      have "overlay_input ?n1 = overlay_input ?n2" by (simp add: overlay_input_eq eq)
      with "1.IH"(1) [OF True] free
      have "overlay_input (place_terrain below cost_value color cnt (placed + 1) (attempts + 1) ?n1)
          = overlay_input (place_terrain below cost_value color cnt (placed + 1) (attempts + 1) ?n2)"
        by blast
      then show ?thesis
        by (simp only: place_terrain_keep [OF True free] place_terrain_keep [OF True free2])
    next
      case taken: False
      let ?n1 = "(fst st, ?r)"
      let ?n2 = "(fst st2, snd (draw_node below (snd st2)))"
      have taken2: "\<not> (terrain_cost (fst st2) (fst (draw_node below (snd st2))) = None
         \<and> fst (draw_node below (snd st2)) \<noteq> s_start (fst st2)
         \<and> fst (draw_node below (snd st2)) \<noteq> s_goal (fst st2)
         \<and> fst (draw_node below (snd st2)) \<notin> obs (fst st2))"
        using taken by (simp add: eq)
      have "overlay_input ?n1 = overlay_input ?n2" by (simp add: overlay_input_eq eq)
      with "1.IH"(2) [OF True] taken
      have "overlay_input (place_terrain below cost_value color cnt placed (attempts + 1) ?n1)
          = overlay_input (place_terrain below cost_value color cnt placed (attempts + 1) ?n2)"
        by blast
      then show ?thesis
        by (simp only: place_terrain_skip [OF True taken] place_terrain_skip [OF True taken2])
    qed
  qed
qed

lemma initialize_terrain_input:
  assumes "overlay_input st1 = overlay_input st2"
  shows "overlay_input (initialize_terrain below st1) = overlay_input (initialize_terrain below st2)"
proof -
  have anchors: "s_start (fst st1) = s_start (fst st2)" "s_goal (fst st1) = s_goal (fst st2)"
    using assms by (simp_all add: overlay_input_eq)
  have "overlay_input (set_surrounding_costs below
            (set_surrounding_costs below st1 (s_start (fst st1)) 3) (s_goal (fst st1)) 3)
      = overlay_input (set_surrounding_costs below
            (set_surrounding_costs below st2 (s_start (fst st2)) 3) (s_goal (fst st2)) 3)"
    unfolding anchors by (intro set_surrounding_costs_input assms)
  then show ?thesis
    unfolding initialize_terrain_def
    by (rule foldl_input [rotated]) (rule place_terrain_input)
qed

lemma set_ring_node_anchors: "anchors (set_ring_node below center distance st d) = anchors st"
  by (simp add: anchors_def set_ring_node_def)

lemma foldl_anchors:
  assumes "\<And>st x. anchors (f st x) = anchors st"
  shows "anchors (foldl f st xs) = anchors st"
  by (induction xs arbitrary: st) (simp_all add: assms)

lemma place_terrain_anchors:
  "anchors (place_terrain below cost_value color cnt placed attempts st) = anchors st"
proof (induction below cost_value color cnt placed attempts st rule: place_terrain.induct)
  case (1 below cost_value color cnt placed attempts st)
  show ?case
  proof (cases "placed < cnt \<and> attempts < 1000")
    case False
    then show ?thesis by (simp only: place_terrain_stop [OF False])
  next
    case True
    show ?thesis
    proof (cases "terrain_cost (fst st) (fst (draw_node below (snd st))) = None
         \<and> fst (draw_node below (snd st)) \<noteq> s_start (fst st)
         \<and> fst (draw_node below (snd st)) \<noteq> s_goal (fst st)
         \<and> fst (draw_node below (snd st)) \<notin> obs (fst st)")
      case free: True
      from "1.IH"(1) [OF True] free show ?thesis
        by (simp only: place_terrain_keep [OF True free]) (simp add: anchors_def)
    next
      case taken: False
      from "1.IH"(2) [OF True] taken show ?thesis
        by (simp only: place_terrain_skip [OF True taken]) (simp add: anchors_def)
    qed
  qed
qed

lemma initialize_terrain_anchors: "anchors (initialize_terrain below st) = anchors st"
  unfolding initialize_terrain_def set_surrounding_costs_def
  by (simp add: foldl_anchors place_terrain_anchors set_ring_node_anchors)

lemma AStar_init_anchors:
  "s_start (fst (AStar_init seed below env r start goal h w)) = start"
  "s_goal (fst (AStar_init seed below env r start goal h w)) = goal"
  "obs (fst (AStar_init seed below env r start goal h w)) = env"
  using initialize_terrain_anchors [of below
      "(\<lparr>s_start = start, s_goal = goal, heuristic_type = h, heuristic_weight = w,
         u_set = [(- 1, 0), (- 1, 1), (0, 1), (1, 1), (1, 0), (1, - 1), (0, - 1), (- 1, - 1)],
         obs = env, OPEN = [], CLOSED = [], PARENT = Map.empty, g = Map.empty,
         terrain_cost = Map.empty, terrain_colors = Map.empty\<rparr>, seed 42)"]
  by (simp_all add: AStar_init_def anchors_def)

lemma AStar_init_input:
  "overlay_input (AStar_init seed below env r1 start goal h1 w1)
   = overlay_input (AStar_init seed below env r2 start goal h2 w2)"
  unfolding AStar_init_def
  by (rule initialize_terrain_input) (simp add: overlay_input_eq)

lemma Dijkstra_init_input:
  "overlay_input (Dijkstra_init seed below env r1 start goal h1)
   = overlay_input (AStar_init seed below env r2 start goal h2 w2)"
  unfolding Dijkstra_init_def
  by (subst (2) AStar_init_def, rule initialize_terrain_input)
     (simp add: overlay_input_eq AStar_init_anchors)

text \<open>
  C7: for the same anchors and obstacles, every construction yields the same multiplier
  and colour dictionaries, whatever the state of the process-wide generator on entry
  (each constructor seeds it with 42), whatever the heuristic type and weight, and
  whichever of the four classes is constructed.
\<close>

theorem overlay_deterministic:
  "overlay_of (fst (AStar_init seed below env r1 start goal h1 w1))
     = overlay_of (fst (AStar_init seed below env r2 start goal h2 w2))
   \<and> overlay_of (fst (Dijkstra_init seed below env r1 start goal h1))
     = overlay_of (fst (AStar_init seed below env r2 start goal h2 w2))
   \<and> overlay_of (fst (BFS_init seed below env r1 start goal h1))
     = overlay_of (fst (AStar_init seed below env r2 start goal h2 w2))
   \<and> overlay_of (fst (DFS_init seed below env r1 start goal h1))
     = overlay_of (fst (AStar_init seed below env r2 start goal h2 w2))"
proof -
  have a: "overlay_of (fst (AStar_init seed below env r start goal h w))
         = overlay_of (fst (AStar_init seed below env r2 start goal h2 w2))" for r h w
    using AStar_init_input [of seed below env r start goal h w r2 h2 w2]
    by (simp add: overlay_input_eq overlay_of_def)
  have d: "overlay_of (fst (Dijkstra_init seed below env r1 start goal h1))
         = overlay_of (fst (AStar_init seed below env r2 start goal h2 w2))"
    using Dijkstra_init_input [of seed below env r1 start goal h1 r2 h2 w2]
    by (simp add: overlay_input_eq overlay_of_def)
  have b: "overlay_of (fst (BFS_init seed below env r1 start goal h1))
         = overlay_of (fst (AStar_init seed below env r1 start goal h1 1))"
    and f: "overlay_of (fst (DFS_init seed below env r1 start goal h1))
         = overlay_of (fst (AStar_init seed below env r1 start goal h1 1))"
    by (simp_all add: BFS_init_def DFS_init_def overlay_of_def)
  show ?thesis using a d b f by simp
qed

end
